theory Spec2Isabelle
  imports Complex_Main "HOL-Library.Multiset"
begin

section \<open>Data model of the hex game\<close>

text \<open>
  \<^verbatim>\<open>Coordinate\<close>, \<^verbatim>\<open>MapSize\<close> and \<^verbatim>\<open>BoardSize\<close> are \<^verbatim>\<open>uint8_t\<close> in the source.  They
  are modelled as natural numbers: the only arithmetic the program does on them is the
  loop increment below the board size and the differences of the node constructor,
  which C++ computes in \<^verbatim>\<open>int\<close> after promotion.  The one place where a wrap-around can
  happen, \<^verbatim>\<open>static_cast<Coordinate>(size - 1)\<close> in the constructor of the game, is written
  out modulo 256.
\<close>

datatype Player = FIRST | SECOND

datatype NodeColour = WHITE | RED | GREEN

type_synonym Coordinate = nat

record Position =
  m_row :: Coordinate
  m_col :: Coordinate

definition Position_ctor :: "Coordinate \<Rightarrow> Coordinate \<Rightarrow> Position" where
  "Position_ctor row col = \<lparr>m_row = row, m_col = col\<rparr>"

record Node = Position +
  m_colour :: NodeColour
  m_traversed :: bool
  m_connections :: "Position list"

record Graph =
  m_size :: nat
  m_tree :: "Node list list"

record HexGame = Graph +
  m_limits :: Position
  m_play_total :: int
  m_play_maximum :: int

text \<open>
  Failures of the program are values.  \<open>AssertionFailed\<close> is the \<^verbatim>\<open>assert\<close> of
  \<^verbatim>\<open>Graph::getNode\<close>; \<open>OutOfRange\<close> is an access outside a \<^verbatim>\<open>std::vector\<close>, which C++
  leaves undefined; \<open>DivisionByZero\<close> is \<^verbatim>\<open>rand() % m_size\<close> on a board of size zero;
  \<open>RandomExhausted\<close> says that the finite prefix of \<^verbatim>\<open>rand()\<close>
  results handed to the model was used up before a loop had finished.
\<close>

datatype error = AssertionFailed | OutOfRange | DivisionByZero | RandomExhausted

subsection \<open>Node: the connection rule of the constructor\<close>

text \<open>
  The body of the two loops of \<^verbatim>\<open>Node::Node\<close> for one pair \<^verbatim>\<open>(row_idx, col_idx)\<close>:
  true when the position is pushed onto \<^verbatim>\<open>m_connections\<close>.
\<close>

definition connects :: "Coordinate \<Rightarrow> Coordinate \<Rightarrow> Coordinate \<Rightarrow> Coordinate \<Rightarrow> bool" where
  "connects row col row_idx col_idx =
     (let dRow = int row_idx - int row; dCol = int col_idx - int col in
      if (dRow = - 1 \<and> dCol = - 1) \<or> (dRow = 1 \<and> dCol = 1) then False
      else if \<bar>dRow\<bar> < 2 \<and> \<bar>dCol\<bar> < 2 then \<not> (row_idx = row \<and> col_idx = col)
      else False)"

text \<open>
  The inner loop over \<^verbatim>\<open>col_idx\<close> and the outer loop over \<^verbatim>\<open>row_idx\<close>, both counting up
  from the given index to \<^verbatim>\<open>board\<close> and appending to the connections collected so far.
\<close>

function Node_cols :: "Coordinate \<Rightarrow> Coordinate \<Rightarrow> nat \<Rightarrow> Coordinate \<Rightarrow> Coordinate
    \<Rightarrow> Position list \<Rightarrow> Position list" where
  "Node_cols row col board row_idx col_idx acc =
     (if col_idx < board
      then Node_cols row col board row_idx (Suc col_idx)
             (if connects row col row_idx col_idx
              then acc @ [Position_ctor row_idx col_idx] else acc)
      else acc)"
  by pat_completeness auto
termination
  by (relation "measure (\<lambda>(row, col, board, row_idx, col_idx, acc). board - col_idx)") auto

function Node_rows :: "Coordinate \<Rightarrow> Coordinate \<Rightarrow> nat \<Rightarrow> Coordinate
    \<Rightarrow> Position list \<Rightarrow> Position list" where
  "Node_rows row col board row_idx acc =
     (if row_idx < board
      then Node_rows row col board (Suc row_idx) (Node_cols row col board row_idx 0 acc)
      else acc)"
  by pat_completeness auto
termination
  by (relation "measure (\<lambda>(row, col, board, row_idx, acc). board - row_idx)") auto

declare Node_cols.simps [simp del] Node_rows.simps [simp del]

text \<open>
  \<^verbatim>\<open>Node::Node(row, col, board)\<close>.  The constructor initialises the position, the colour
  and the connections, and leaves \<^verbatim>\<open>m_traversed\<close> uninitialised: its value is whatever
  the memory held, here the argument \<open>junk\<close>.
\<close>

definition Node_ctor :: "Coordinate \<Rightarrow> Coordinate \<Rightarrow> nat \<Rightarrow> bool \<Rightarrow> Node" where
  "Node_ctor row col board junk =
     \<lparr>m_row = row, m_col = col, m_colour = WHITE, m_traversed = junk,
      m_connections = Node_rows row col board 0 []\<rparr>"

subsection \<open>Graph\<close>

text \<open>
  \<^verbatim>\<open>Graph::Graph(size)\<close>: the tree is resized to \<open>sz\<close> rows of \<open>sz\<close> nodes (\<open>sz\<close> is the source's \<^verbatim>\<open>size\<close>) and every
  entry is overwritten with the node constructed for its row and column.
\<close>

definition Graph_tree :: "nat \<Rightarrow> (Coordinate \<Rightarrow> Coordinate \<Rightarrow> bool) \<Rightarrow> Node list list" where
  "Graph_tree sz junk =
     map (\<lambda>row_idx. map (\<lambda>col_idx. Node_ctor row_idx col_idx sz (junk row_idx col_idx))
                         [0..<sz]) [0..<sz]"

definition getNode :: "'a Graph_scheme \<Rightarrow> Coordinate \<Rightarrow> Coordinate \<Rightarrow> error + Node" where
  "getNode g row col =
     (if \<not> (row < m_size g \<and> col < m_size g) then Inl AssertionFailed
      else if \<not> (row < length (m_tree g) \<and> col < length (m_tree g ! row)) then Inl OutOfRange
      else Inr (m_tree g ! row ! col))"

text \<open>Writing through the reference that \<^verbatim>\<open>getNode\<close> returns.\<close>

definition putNode :: "'a Graph_scheme \<Rightarrow> Coordinate \<Rightarrow> Coordinate \<Rightarrow> Node \<Rightarrow> 'a Graph_scheme" where
  "putNode g row col n = g\<lparr>m_tree := (m_tree g)[row := (m_tree g ! row)[col := n]]\<rparr>"

definition isNodeColour :: "'a Graph_scheme \<Rightarrow> NodeColour \<Rightarrow> Coordinate \<Rightarrow> Coordinate
    \<Rightarrow> error + bool" where
  "isNodeColour g colour row col =
     (case getNode g row col of Inl e \<Rightarrow> Inl e | Inr n \<Rightarrow> Inr (m_colour n = colour))"

definition isNodeFree :: "'a Graph_scheme \<Rightarrow> Coordinate \<Rightarrow> Coordinate \<Rightarrow> error + bool" where
  "isNodeFree g row col = isNodeColour g WHITE row col"

definition setNode :: "'a Graph_scheme \<Rightarrow> NodeColour \<Rightarrow> Coordinate \<Rightarrow> Coordinate
    \<Rightarrow> error + 'a Graph_scheme" where
  "setNode g colour row col =
     (case getNode g row col of Inl e \<Rightarrow> Inl e
      | Inr n \<Rightarrow> Inr (putNode g row col (n\<lparr>m_colour := colour\<rparr>)))"

definition setTraverse :: "'a Graph_scheme \<Rightarrow> Coordinate \<Rightarrow> Coordinate
    \<Rightarrow> error + 'a Graph_scheme" where
  "setTraverse g row col =
     (case getNode g row col of Inl e \<Rightarrow> Inl e
      | Inr n \<Rightarrow> Inr (putNode g row col (n\<lparr>m_traversed := True\<rparr>)))"

definition clearTraverse :: "'a Graph_scheme \<Rightarrow> Coordinate \<Rightarrow> Coordinate
    \<Rightarrow> error + 'a Graph_scheme" where
  "clearTraverse g row col =
     (case getNode g row col of Inl e \<Rightarrow> Inl e
      | Inr n \<Rightarrow> Inr (putNode g row col (n\<lparr>m_traversed := False\<rparr>)))"

definition getTraverse :: "'a Graph_scheme \<Rightarrow> Coordinate \<Rightarrow> Coordinate \<Rightarrow> error + bool" where
  "getTraverse g row col =
     (case getNode g row col of Inl e \<Rightarrow> Inl e | Inr n \<Rightarrow> Inr (m_traversed n))"

definition getConnections :: "'a Graph_scheme \<Rightarrow> Coordinate \<Rightarrow> Coordinate
    \<Rightarrow> error + Position list" where
  "getConnections g row col =
     (case getNode g row col of Inl e \<Rightarrow> Inl e | Inr n \<Rightarrow> Inr (m_connections n))"

subsection \<open>HexGame: construction and moves\<close>

text \<open>
  \<^verbatim>\<open>HexGame::HexGame(size)\<close>, for a \<^verbatim>\<open>BoardSize\<close> below 256.  \<open>junk\<close> gives the
  uninitialised \<^verbatim>\<open>m_traversed\<close> of every node.
\<close>

definition HexGame_ctor :: "nat \<Rightarrow> (Coordinate \<Rightarrow> Coordinate \<Rightarrow> bool) \<Rightarrow> HexGame" where
  "HexGame_ctor sz junk =
     \<lparr>m_size = sz, m_tree = Graph_tree sz junk,
      m_limits = Position_ctor (nat ((int sz - 1) mod 256)) (nat ((int sz - 1) mod 256)),
      m_play_total = 0,
      m_play_maximum = int sz * int sz\<rparr>"

definition convertPlayer :: "Player \<Rightarrow> NodeColour" where
  "convertPlayer player = (if player = FIRST then GREEN else RED)"

definition checkRangeSingle :: "HexGame \<Rightarrow> Coordinate \<Rightarrow> bool" where
  "checkRangeSingle g input = (input < m_size g)"

definition checkInputRange :: "HexGame \<Rightarrow> Coordinate \<Rightarrow> Coordinate \<Rightarrow> bool" where
  "checkInputRange g row col = (checkRangeSingle g row \<and> checkRangeSingle g col)"

text \<open>
  \<^verbatim>\<open>addPlay\<close> returns the flag and the game after the call: on a free node the colour is
  set and \<^verbatim>\<open>m_play_total\<close> incremented, otherwise nothing changes.
\<close>

definition addPlay :: "HexGame \<Rightarrow> Player \<Rightarrow> Coordinate \<Rightarrow> Coordinate
    \<Rightarrow> error + (bool \<times> HexGame)" where
  "addPlay g player row col =
     (case isNodeFree g row col of Inl e \<Rightarrow> Inl e
      | Inr free \<Rightarrow>
          if free
          then (case setNode g (convertPlayer player) row col of Inl e \<Rightarrow> Inl e
                | Inr g' \<Rightarrow> Inr (True, g'\<lparr>m_play_total := m_play_total g' + 1\<rparr>))
          else Inr (False, g))"

definition playInterface :: "HexGame \<Rightarrow> Player \<Rightarrow> Coordinate \<Rightarrow> Coordinate
    \<Rightarrow> error + (bool \<times> HexGame)" where
  "playInterface g player row col =
     (if checkInputRange g row col then addPlay g player row col else Inr (False, g))"

subsection \<open>Win detection\<close>

text \<open>
  The lambda \<^verbatim>\<open>compare\<close> of \<^verbatim>\<open>findPath\<close>: for green the column of the node against the
  column limit, for red the row against the row limit.
\<close>

definition compare :: "HexGame \<Rightarrow> NodeColour \<Rightarrow> Node \<Rightarrow> int \<times> int" where
  "compare g colour temp =
     (if colour = GREEN then (int (m_col temp), int (m_col (m_limits g)))
      else (int (m_row temp), int (m_row (m_limits g))))"

text \<open>
  The number of nodes of the tree whose traverse mark is not set: the measure under
  which the recursion of \<^verbatim>\<open>findPath\<close> ends.
\<close>

definition untraversed_row :: "Node list \<Rightarrow> nat" where
  "untraversed_row ns = sum_list (map (\<lambda>n. if m_traversed n then 0 else 1) ns)"

definition untraversed :: "'a Graph_scheme \<Rightarrow> nat" where
  "untraversed g = sum_list (map untraversed_row (m_tree g))"

text \<open>
  \<^verbatim>\<open>findPath(colour, net)\<close> is \<open>findPath colour net False g\<close>: the third argument is the
  local \<^verbatim>\<open>ret\<close>, carried through the iterations of the loop over \<^verbatim>\<open>net\<close>; the game is
  passed in and returned with the traverse marks the search has set.
\<close>

function findPath :: "NodeColour \<Rightarrow> Position list \<Rightarrow> bool \<Rightarrow> HexGame \<Rightarrow> error + (bool \<times> HexGame)" where
  "findPath colour [] ret g = Inr (ret, g)"
| "findPath colour (node # net) ret g =
     (case getNode g (m_row node) (m_col node) of
        Inl e \<Rightarrow> Inl e
      | Inr temp \<Rightarrow>
          let result = compare g colour temp in
          if fst result = snd result \<and> m_colour temp = colour then Inr (True, g)
          else if m_colour temp = colour \<and> m_traversed temp = False
          then (case findPath colour (m_connections temp) False
                       (putNode g (m_row node) (m_col node) (temp\<lparr>m_traversed := True\<rparr>)) of
                  Inl e \<Rightarrow> Inl e
                | Inr (r, g') \<Rightarrow> findPath colour net (ret \<or> r) g')
          else findPath colour net ret g)"
  by pat_completeness auto

lemma untraversed_row_update:
  "c < length ns \<Longrightarrow> \<not> m_traversed (ns ! c) \<Longrightarrow>
   Suc (untraversed_row (ns[c := (ns ! c)\<lparr>m_traversed := True\<rparr>])) = untraversed_row ns"
  unfolding untraversed_row_def
  by (induction ns arbitrary: c) (auto simp: nth_Cons' split: nat.splits)

lemma sum_list_map_update_less:
  fixes f :: "'a \<Rightarrow> nat"
  shows "r < length xs \<Longrightarrow> Suc (f y) = f (xs ! r) \<Longrightarrow>
    Suc (sum_list (map f (xs[r := y]))) = sum_list (map f xs)"
  by (induction xs arbitrary: r) (auto simp: nth_Cons' split: nat.splits)

lemma untraversed_putNode:
  assumes "getNode g row col = Inr temp" "\<not> m_traversed temp"
  shows "Suc (untraversed (putNode g row col (temp\<lparr>m_traversed := True\<rparr>))) = untraversed g"
proof -
  from assms(1) have r: "row < length (m_tree g)" and c: "col < length (m_tree g ! row)"
    and t: "temp = m_tree g ! row ! col"
    by (auto simp: getNode_def split: if_splits)
  show ?thesis
    unfolding untraversed_def putNode_def using r c t assms(2)
    by (simp add: sum_list_map_update_less untraversed_row_update)
qed

lemma findPath_untraversed:
  "findPath_dom (colour, net, ret, g) \<Longrightarrow> findPath colour net ret g = Inr (r, g')
   \<Longrightarrow> untraversed g' \<le> untraversed g"
proof (induction colour net ret g arbitrary: r g' rule: findPath.pinduct)
  case (1 colour ret g)
  then show ?case by (simp add: findPath.psimps)
next
  case (2 colour node net ret g)
  from "2.prems" "2.hyps" obtain temp where temp: "getNode g (m_row node) (m_col node) = Inr temp"
    by (auto simp: findPath.psimps split: sum.splits)
  let ?res = "compare g colour temp"
  let ?g1 = "putNode g (m_row node) (m_col node) (temp\<lparr>m_traversed := True\<rparr>)"
  show ?case
  proof (cases "fst ?res = snd ?res \<and> m_colour temp = colour")
    case True
    with "2.prems" "2.hyps" temp show ?thesis by (simp add: findPath.psimps)
  next
    case nb: False
    show ?thesis
    proof (cases "m_colour temp = colour \<and> m_traversed temp = False")
      case True
      with nb "2.prems" "2.hyps" temp obtain b g2 where
        inner: "findPath colour (m_connections temp) False ?g1 = Inr (b, g2)"
        and outer: "findPath colour net (ret \<or> b) g2 = Inr (r, g')"
        by (auto simp: findPath.psimps Let_def split: sum.splits)
      have "untraversed g2 \<le> untraversed ?g1"
        using "2.IH"(1)[OF temp refl nb True inner] .
      moreover have "untraversed g' \<le> untraversed g2"
        using "2.IH"(2)[OF temp refl nb True inner refl outer] .
      moreover have "Suc (untraversed ?g1) = untraversed g"
        using untraversed_putNode[OF temp] True by simp
      ultimately show ?thesis by simp
    next
      case False
      with nb "2.prems" "2.hyps" temp have "findPath colour net ret g = Inr (r, g')"
        by (auto simp: findPath.psimps Let_def split: sum.splits)
      then show ?thesis using "2.IH"(3)[OF temp refl nb False] by simp
    qed
  qed
qed

termination findPath
proof (relation "measures [\<lambda>(colour, net, ret, g). untraversed g, \<lambda>(colour, net, ret, g). length net]", goal_cases)
  case 1
  then show ?case by simp
next
  case (2 colour node net ret g temp result)
  then show ?case using untraversed_putNode[of g "m_row node" "m_col node" temp] by simp
next
  case (3 colour node net ret g temp result r' b g')
  then have "untraversed g' \<le> untraversed (putNode g (m_row node) (m_col node) (temp\<lparr>m_traversed := True\<rparr>))"
    using findPath_untraversed[of colour "m_connections temp" False _ b g'] by simp
  with 3 show ?case using untraversed_putNode[of g "m_row node" "m_col node" temp] by simp
next
  case (4 colour node net ret g temp result)
  then show ?case by simp
qed


declare findPath.simps [simp del]

text \<open>
  \<^verbatim>\<open>clearAllTraverse\<close>: the inner loop over the columns of one row and the outer loop
  over the rows.
\<close>

function clearAllTraverse_cols :: "HexGame \<Rightarrow> Coordinate \<Rightarrow> Coordinate \<Rightarrow> error + HexGame" where
  "clearAllTraverse_cols g row_idx col_idx =
     (if col_idx < m_size g
      then (case clearTraverse g row_idx col_idx of Inl e \<Rightarrow> Inl e
            | Inr g' \<Rightarrow> clearAllTraverse_cols g' row_idx (Suc col_idx))
      else Inr g)"
  by pat_completeness auto
termination
  by (relation "measure (\<lambda>(g, row_idx, col_idx). m_size g - col_idx)")
     (auto simp: clearTraverse_def putNode_def split: sum.splits)

declare clearAllTraverse_cols.simps [simp del]

lemma clearAllTraverse_cols_size:
  "clearAllTraverse_cols g row_idx col_idx = Inr g' \<Longrightarrow> m_size g' = m_size g"
proof (induction g row_idx col_idx rule: clearAllTraverse_cols.induct)
  case (1 g row_idx col_idx)
  show ?case
  proof (cases "col_idx < m_size g")
    case True
    with "1.prems" obtain g1 where c: "clearTraverse g row_idx col_idx = Inr g1"
      and r: "clearAllTraverse_cols g1 row_idx (Suc col_idx) = Inr g'"
      by (auto simp: clearAllTraverse_cols.simps[of g row_idx col_idx] split: sum.splits)
    from c have "m_size g1 = m_size g"
      by (auto simp: clearTraverse_def putNode_def split: sum.splits)
    with "1.IH"[OF True c r] show ?thesis by simp
  next
    case False
    with "1.prems" show ?thesis by (simp add: clearAllTraverse_cols.simps[of g row_idx col_idx])
  qed
qed

function clearAllTraverse_rows :: "HexGame \<Rightarrow> Coordinate \<Rightarrow> error + HexGame" where
  "clearAllTraverse_rows g row_idx =
     (if row_idx < m_size g
      then (case clearAllTraverse_cols g row_idx 0 of Inl e \<Rightarrow> Inl e
            | Inr g' \<Rightarrow> clearAllTraverse_rows g' (Suc row_idx))
      else Inr g)"
  by pat_completeness auto
termination
  by (relation "measure (\<lambda>(g, row_idx). m_size g - row_idx)")
     (auto simp: clearAllTraverse_cols_size)

declare clearAllTraverse_rows.simps [simp del]

definition clearAllTraverse :: "HexGame \<Rightarrow> error + HexGame" where
  "clearAllTraverse g = clearAllTraverse_rows g 0"

lemma findPath_size: "findPath colour net ret g = Inr (r, g') \<Longrightarrow> m_size g' = m_size g"
proof (induction colour net ret g arbitrary: r g' rule: findPath.induct)
  case (1 colour ret g)
  then show ?case by (simp add: findPath.simps)
next
  case (2 colour node net ret g)
  from "2.prems" obtain temp where temp: "getNode g (m_row node) (m_col node) = Inr temp"
    by (auto simp: findPath.simps split: sum.splits)
  let ?res = "compare g colour temp"
  let ?g1 = "putNode g (m_row node) (m_col node) (temp\<lparr>m_traversed := True\<rparr>)"
  show ?case
  proof (cases "fst ?res = snd ?res \<and> m_colour temp = colour")
    case True
    with "2.prems" temp show ?thesis by (simp add: findPath.simps)
  next
    case nb: False
    show ?thesis
    proof (cases "m_colour temp = colour \<and> m_traversed temp = False")
      case True
      with nb "2.prems" temp obtain b g2 where
        inner: "findPath colour (m_connections temp) False ?g1 = Inr (b, g2)"
        and outer: "findPath colour net (ret \<or> b) g2 = Inr (r, g')"
        by (auto simp: findPath.simps Let_def split: sum.splits)
      have "m_size g2 = m_size ?g1"
        using "2.IH"(1)[OF temp refl nb True inner] .
      moreover have "m_size g' = m_size g2"
        using "2.IH"(2)[OF temp refl nb True inner refl outer] .
      ultimately show ?thesis by (simp add: putNode_def)
    next
      case False
      with nb "2.prems" temp have "findPath colour net ret g = Inr (r, g')"
        by (auto simp: findPath.simps Let_def split: sum.splits)
      then show ?thesis using "2.IH"(3)[OF temp refl nb False] by simp
    qed
  qed
qed

text \<open>
  The loop of \<^verbatim>\<open>checkWin\<close> over the nodes of the starting border.  The pointers
  \<^verbatim>\<open>row_idx\<close> and \<^verbatim>\<open>col_idx\<close> select the running index or zero, depending on the player.
  \<^verbatim>\<open>break\<close> leaves the loop with the result; \<^verbatim>\<open>continue\<close> goes to the next index.
\<close>

function checkWin_loop :: "HexGame \<Rightarrow> Player \<Rightarrow> Coordinate \<Rightarrow> bool \<Rightarrow> error + (bool \<times> HexGame)" where
  "checkWin_loop g player idx ret =
     (if idx < m_size g
      then
        let colour = convertPlayer player;
            row_idx = (if player = FIRST then idx else 0);
            col_idx = (if player = FIRST then 0 else idx)
        in (case isNodeColour g colour row_idx col_idx of Inl e \<Rightarrow> Inl e
            | Inr is_colour \<Rightarrow>
                if is_colour
                then (case getTraverse g row_idx col_idx of Inl e \<Rightarrow> Inl e
                      | Inr traversed \<Rightarrow>
                          if traversed = False
                          then (case setTraverse g row_idx col_idx of Inl e \<Rightarrow> Inl e
                                | Inr g1 \<Rightarrow>
                                   (case getConnections g1 row_idx col_idx of Inl e \<Rightarrow> Inl e
                                    | Inr net \<Rightarrow>
                                       (case findPath colour net False g1 of Inl e \<Rightarrow> Inl e
                                        | Inr (ret', g2) \<Rightarrow>
                                            if ret' = True then Inr (ret', g2)
                                            else checkWin_loop g2 player (Suc idx) ret')))
                          else checkWin_loop g player (Suc idx) ret)
                else checkWin_loop g player (Suc idx) ret)
      else Inr (ret, g))"
  by pat_completeness auto
termination
proof (relation "measure (\<lambda>(g, player, idx, ret). m_size g - idx)", goal_cases)
  case 1
  then show ?case by simp
next
  case (2 g player idx ret colour row_idx col_idx is_colour traversed g1 net x ret' g2)
  then have "m_size g2 = m_size g1" using findPath_size[of colour net False g1 ret' g2] by simp
  moreover from 2 have "m_size g1 = m_size g"
    by (auto simp: setTraverse_def putNode_def split: sum.splits)
  ultimately show ?case using 2 by simp
next
  case 3
  then show ?case by simp
next
  case 4
  then show ?case by simp
qed

declare checkWin_loop.simps [simp del]

definition checkWin :: "HexGame \<Rightarrow> Player \<Rightarrow> error + (bool \<times> HexGame)" where
  "checkWin g player =
     (case checkWin_loop g player 0 False of Inl e \<Rightarrow> Inl e
      | Inr (ret, g1) \<Rightarrow>
          (case clearAllTraverse g1 of Inl e \<Rightarrow> Inl e | Inr g2 \<Rightarrow> Inr (ret, g2)))"

section \<open>Adjacency\<close>

definition offsets :: "(int \<times> int) list" where
  "offsets = [(- 1, 0), (1, 0), (0, - 1), (0, 1), (- 1, 1), (1, - 1)]"

definition adjacent :: "Position \<Rightarrow> Position \<Rightarrow> bool" where
  "adjacent p q =
     ((int (m_row q) - int (m_row p), int (m_col q) - int (m_col p)) \<in> set offsets)"

definition neighbours :: "nat \<Rightarrow> Position \<Rightarrow> Position set" where
  "neighbours N p = {q. m_row q < N \<and> m_col q < N \<and> adjacent p q}"

lemma offsets_arith:
  fixes dRow dCol :: int
  shows "(if (dRow = - 1 \<and> dCol = - 1) \<or> (dRow = 1 \<and> dCol = 1) then False
      else if \<bar>dRow\<bar> < 2 \<and> \<bar>dCol\<bar> < 2 then \<not> (dRow = 0 \<and> dCol = 0)
      else False) =
    ((dRow, dCol) \<in> set [(- 1, 0), (1, 0), (0, - 1), (0, 1), (- 1, 1), (1, - 1)])"
proof -
  have r: "\<bar>dRow\<bar> < 2 \<longleftrightarrow> dRow = -1 \<or> dRow = 0 \<or> dRow = 1" by arith
  have c: "\<bar>dCol\<bar> < 2 \<longleftrightarrow> dCol = -1 \<or> dCol = 0 \<or> dCol = 1" by arith
  show ?thesis unfolding r c by auto
qed

lemma connects_iff_offsets:
  "connects row col row_idx col_idx =
     ((int row_idx - int row, int col_idx - int col) \<in> set offsets)"
proof -
  have e: "(row_idx = row \<and> col_idx = col) =
      (int row_idx - int row = 0 \<and> int col_idx - int col = 0)" by auto
  show ?thesis
    unfolding connects_def offsets_def Let_def e
    by (rule offsets_arith)
qed

lemma Node_cols_eq:
  "Node_cols row col board row_idx col_idx acc =
     acc @ map (Position_ctor row_idx) (filter (connects row col row_idx) [col_idx..<board])"
proof (induction row col board row_idx col_idx acc rule: Node_cols.induct)
  case (1 row col board row_idx col_idx acc)
  show ?case
  proof (cases "col_idx < board")
    case True
    then show ?thesis
      using "1.IH"[OF True]
      by (subst Node_cols.simps) (simp add: upt_conv_Cons)
  next
    case False
    then show ?thesis by (subst Node_cols.simps) simp
  qed
qed

definition row_connections :: "Coordinate \<Rightarrow> Coordinate \<Rightarrow> nat \<Rightarrow> Coordinate \<Rightarrow> Position list" where
  "row_connections row col board row_idx =
     map (Position_ctor row_idx) (filter (connects row col row_idx) [0..<board])"

lemma Node_cols_0:
  "Node_cols row col board row_idx 0 acc = acc @ row_connections row col board row_idx"
  by (simp add: Node_cols_eq row_connections_def)

lemma Node_rows_eq:
  "Node_rows row col board row_idx acc =
     acc @ concat (map (row_connections row col board) [row_idx..<board])"
proof (induction row col board row_idx acc rule: Node_rows.induct)
  case (1 row col board row_idx acc)
  show ?case
  proof (cases "row_idx < board")
    case True
    then show ?thesis
      using "1.IH"[OF True]
      by (subst Node_rows.simps) (simp add: upt_conv_Cons[of row_idx board] Node_cols_0)
  next
    case False
    then show ?thesis by (subst Node_rows.simps) simp
  qed
qed

lemma set_row_connections:
  "set (row_connections row col board r) =
     {q. m_row q = r \<and> m_col q < board \<and> connects row col r (m_col q)}"
proof -
  have "\<And>q::Position. Position_ctor (m_row q) (m_col q) = q"
    by (simp add: Position_ctor_def)
  then show ?thesis
    unfolding row_connections_def by (auto simp: Position_ctor_def image_iff) force
qed

lemma set_Node_rows: "set (Node_rows row col board 0 []) = neighbours board (Position_ctor row col)"
  unfolding Node_rows_eq neighbours_def adjacent_def
  by (auto simp: set_row_connections connects_iff_offsets Position_ctor_def)

lemma distinct_row_connections: "distinct (row_connections row col board r)"
  unfolding row_connections_def
  by (simp add: distinct_map inj_on_def Position_ctor_def)

lemma distinct_concat_rows:
  "distinct (concat (map (row_connections row col board) [0..<n]))"
proof (induction n)
  case 0
  then show ?case by simp
next
  case (Suc n)
  then show ?case
    by (auto simp: distinct_row_connections set_row_connections)
qed

lemma distinct_Node_rows: "distinct (Node_rows row col board 0 [])"
  by (simp add: Node_rows_eq distinct_concat_rows)

lemma Position_eq_iff: "(q = Position_ctor a b) = (m_row q = a \<and> m_col q = b)"
  by (auto simp: Position_ctor_def)

lemma int_diff_cases:
  "(int a - int b = - 1) = (Suc a = b)"
  "(int a - int b = 1) = (a = Suc b)"
  "(int a - int b = 0) = (a = b)"
  by arith+

lemma adjacent_cases:
  "adjacent (Position_ctor r c) q =
    ((Suc (m_row q) = r \<and> m_col q = c) \<or> (m_row q = Suc r \<and> m_col q = c) \<or>
     (m_row q = r \<and> Suc (m_col q) = c) \<or> (m_row q = r \<and> m_col q = Suc c) \<or>
     (Suc (m_row q) = r \<and> m_col q = Suc c) \<or> (m_row q = Suc r \<and> Suc (m_col q) = c))"
  unfolding adjacent_def offsets_def Position_ctor_def
  by (simp add: int_diff_cases)

definition neighbour_list :: "nat \<Rightarrow> Coordinate \<Rightarrow> Coordinate \<Rightarrow> Position list" where
  "neighbour_list N r c =
     (if 0 < r then [Position_ctor (r - 1) c] else []) @
     (if 0 < r \<and> Suc c < N then [Position_ctor (r - 1) (Suc c)] else []) @
     (if 0 < c then [Position_ctor r (c - 1)] else []) @
     (if Suc c < N then [Position_ctor r (Suc c)] else []) @
     (if Suc r < N \<and> 0 < c then [Position_ctor (Suc r) (c - 1)] else []) @
     (if Suc r < N then [Position_ctor (Suc r) c] else [])"

lemma pred_eq_iff: "(0 < r \<and> a = r - Suc 0) = (Suc a = r)"
  by arith

lemma set_neighbour_list:
  "q \<in> set (neighbour_list N r c) \<longleftrightarrow>
     (Suc (m_row q) = r \<and> m_col q = c) \<or>
     (Suc (m_row q) = r \<and> Suc c < N \<and> m_col q = Suc c) \<or>
     (m_row q = r \<and> Suc (m_col q) = c) \<or>
     (Suc c < N \<and> m_row q = r \<and> m_col q = Suc c) \<or>
     (Suc r < N \<and> m_row q = Suc r \<and> Suc (m_col q) = c) \<or>
     (Suc r < N \<and> m_row q = Suc r \<and> m_col q = c)"
proof -
  have "q \<in> set (neighbour_list N r c) \<longleftrightarrow>
     (0 < r \<and> q = Position_ctor (r - 1) c) \<or>
     (0 < r \<and> Suc c < N \<and> q = Position_ctor (r - 1) (Suc c)) \<or>
     (0 < c \<and> q = Position_ctor r (c - 1)) \<or>
     (Suc c < N \<and> q = Position_ctor r (Suc c)) \<or>
     (Suc r < N \<and> 0 < c \<and> q = Position_ctor (Suc r) (c - 1)) \<or>
     (Suc r < N \<and> q = Position_ctor (Suc r) c)"
    unfolding neighbour_list_def by (simp del: One_nat_def) blast
  also have "\<dots> \<longleftrightarrow> (Suc (m_row q) = r \<and> m_col q = c) \<or>
     (Suc (m_row q) = r \<and> Suc c < N \<and> m_col q = Suc c) \<or>
     (m_row q = r \<and> Suc (m_col q) = c) \<or>
     (Suc c < N \<and> m_row q = r \<and> m_col q = Suc c) \<or>
     (Suc r < N \<and> m_row q = Suc r \<and> Suc (m_col q) = c) \<or>
     (Suc r < N \<and> m_row q = Suc r \<and> m_col q = c)"
    unfolding Position_eq_iff using pred_eq_iff[of r "m_row q"] pred_eq_iff[of c "m_col q"]
    by (simp only: One_nat_def) blast
  finally show ?thesis .
qed

lemma neighbours_list:
  assumes "r < N" "c < N"
  shows "neighbours N (Position_ctor r c) = set (neighbour_list N r c)"
proof (rule set_eqI)
  fix q
  show "q \<in> neighbours N (Position_ctor r c) \<longleftrightarrow> q \<in> set (neighbour_list N r c)"
    unfolding set_neighbour_list neighbours_def adjacent_cases mem_Collect_eq
    using assms by auto
qed

lemma distinct_neighbour_list: "distinct (neighbour_list N r c)"
  unfolding neighbour_list_def by (simp add: Position_ctor_def; arith)

lemma card_neighbours:
  assumes "r < N" "c < N"
  shows "card (neighbours N (Position_ctor r c)) = length (neighbour_list N r c)"
  by (simp add: neighbours_list[OF assms] distinct_card distinct_neighbour_list)

lemma length_neighbour_list_cases:
  assumes "3 \<le> N" "r < N" "c < N"
  shows "0 < r \<and> r < N - 1 \<and> 0 < c \<and> c < N - 1 \<longrightarrow> length (neighbour_list N r c) = 6"
    "(r = 0 \<or> r = N - 1) \<and> 0 < c \<and> c < N - 1 \<longrightarrow> length (neighbour_list N r c) = 4"
    "0 < r \<and> r < N - 1 \<and> (c = 0 \<or> c = N - 1) \<longrightarrow> length (neighbour_list N r c) = 4"
    "(r = 0 \<and> c = 0) \<or> (r = N - 1 \<and> c = N - 1) \<longrightarrow> length (neighbour_list N r c) = 2"
    "(r = 0 \<and> c = N - 1) \<or> (r = N - 1 \<and> c = 0) \<longrightarrow> length (neighbour_list N r c) = 3"
  using assms unfolding neighbour_list_def by auto

definition blank :: "Node \<Rightarrow> Node" where
  "blank n = n\<lparr>m_colour := WHITE, m_traversed := False\<rparr>"

definition wf_game :: "HexGame \<Rightarrow> bool" where
  "wf_game g =
     (g\<lparr>m_tree := map (map blank) (m_tree g), m_play_total := 0\<rparr>
        = HexGame_ctor (m_size g) (\<lambda>row col. False))"

lemma wf_game_tree:
  "wf_game g \<Longrightarrow> map (map blank) (m_tree g) = Graph_tree (m_size g) (\<lambda>row col. False)"
  unfolding wf_game_def
  by (drule arg_cong[where f = m_tree]) (simp add: HexGame_ctor_def)

lemma length_Graph_tree: "length (Graph_tree N junk) = N"
  by (simp add: Graph_tree_def)

lemma nth_Graph_tree: "r < N \<Longrightarrow> Graph_tree N junk ! r = map (\<lambda>c. Node_ctor r c N (junk r c)) [0..<N]"
  by (simp add: Graph_tree_def)

lemma wf_game_length: "wf_game g \<Longrightarrow> length (m_tree g) = m_size g"
  using wf_game_tree[of g] length_Graph_tree[of "m_size g"] by (metis length_map)

lemma wf_game_row:
  assumes "wf_game g" "r < m_size g"
  shows "map blank (m_tree g ! r) = map (\<lambda>c. Node_ctor r c (m_size g) False) [0..<m_size g]"
proof -
  have "map (map blank) (m_tree g) ! r = Graph_tree (m_size g) (\<lambda>row col. False) ! r"
    using wf_game_tree[OF assms(1)] by simp
  then show ?thesis using assms wf_game_length[OF assms(1)] by (simp add: nth_Graph_tree)
qed

lemma wf_game_row_length: "wf_game g \<Longrightarrow> r < m_size g \<Longrightarrow> length (m_tree g ! r) = m_size g"
  using wf_game_row[of g r] by (metis length_map length_upt minus_nat.diff_0)

lemma wf_game_blank_node:
  assumes "wf_game g" "r < m_size g" "c < m_size g"
  shows "blank (m_tree g ! r ! c) = Node_ctor r c (m_size g) False"
proof -
  have "map blank (m_tree g ! r) ! c = map (\<lambda>c. Node_ctor r c (m_size g) False) [0..<m_size g] ! c"
    using wf_game_row[OF assms(1,2)] by simp
  then show ?thesis using assms wf_game_row_length[OF assms(1,2)] by simp
qed

lemma wf_getNode:
  assumes "wf_game g" "r < m_size g" "c < m_size g"
  shows "getNode g r c = Inr (m_tree g ! r ! c)"
  using assms wf_game_length[OF assms(1)] wf_game_row_length[OF assms(1,2)]
  by (simp add: getNode_def)

lemma wf_node_fields:
  assumes "wf_game g" "r < m_size g" "c < m_size g"
  shows "m_row (m_tree g ! r ! c) = r" "m_col (m_tree g ! r ! c) = c"
    "m_connections (m_tree g ! r ! c) = Node_rows r c (m_size g) 0 []"
proof -
  let ?n = "m_tree g ! r ! c"
  have b: "blank ?n = Node_ctor r c (m_size g) False" by (rule wf_game_blank_node[OF assms])
  have "m_row (blank ?n) = r" "m_col (blank ?n) = c"
    "m_connections (blank ?n) = Node_rows r c (m_size g) 0 []"
    unfolding b by (simp_all add: Node_ctor_def)
  then show "m_row ?n = r" "m_col ?n = c" "m_connections ?n = Node_rows r c (m_size g) 0 []"
    by (simp_all add: blank_def)
qed

lemma wf_limits:
  assumes "wf_game g" "0 < m_size g" "m_size g < 256"
  shows "m_limits g = Position_ctor (m_size g - 1) (m_size g - 1)"
proof -
  have "m_limits g = m_limits (HexGame_ctor (m_size g) (\<lambda>row col. False))"
    using arg_cong[where f = m_limits, OF assms(1)[unfolded wf_game_def]] by simp
  moreover have "nat ((int (m_size g) - 1) mod 256) = m_size g - 1"
    using assms(2,3) by (simp add: nat_diff_distrib')
  ultimately show ?thesis by (simp add: HexGame_ctor_def)
qed

lemma wf_play_maximum:
  assumes "wf_game g"
  shows "m_play_maximum g = int (m_size g) * int (m_size g)"
proof -
  have "m_play_maximum g = m_play_maximum (HexGame_ctor (m_size g) (\<lambda>row col. False))"
    using arg_cong[where f = m_play_maximum, OF assms(1)[unfolded wf_game_def]] by simp
  then show ?thesis by (simp add: HexGame_ctor_def)
qed

lemma wf_HexGame_ctor: "wf_game (HexGame_ctor N junk)"
  unfolding wf_game_def HexGame_ctor_def Graph_tree_def
  by (simp add: blank_def Node_ctor_def comp_def)

lemma adjacent_sym: "adjacent p q = adjacent q p"
proof -
  have "\<And>a b::int. ((a, b) \<in> set offsets) = ((- a, - b) \<in> set offsets)"
    unfolding offsets_def by auto
  from this[of "int (m_row q) - int (m_row p)" "int (m_col q) - int (m_col p)"]
  show ?thesis unfolding adjacent_def by simp
qed

lemma getConnections_ctor:
  assumes "r < N" "c < N"
  shows "getConnections (HexGame_ctor N junk) r c = Inr (Node_rows r c N 0 [])"
proof -
  have w: "wf_game (HexGame_ctor N junk)" by (rule wf_HexGame_ctor)
  have s: "m_size (HexGame_ctor N junk) = N" by (simp add: HexGame_ctor_def)
  show ?thesis
    using wf_getNode[OF w, of r c] wf_node_fields(3)[OF w, of r c] assms
    by (simp add: getConnections_def s)
qed

text \<open>
  C5.  On a board of size 3 to 11 the connection list that the constructor builds for
  the cell \<open>(r, c)\<close> holds, each once, exactly the cells inside the board at the six
  offsets (-1,0), (1,0), (0,-1), (0,1), (-1,1), (1,-1).  An interior cell has six
  neighbours, an edge cell that is no corner has four, the corners (0,0) and
  (N-1,N-1) have two, the corners (0,N-1) and (N-1,0) have three, and a cell is in the
  list of another exactly when the other is in its own.
\<close>

theorem connections_six_offsets:
  assumes "3 \<le> N" "N \<le> 11" "r < N" "c < N"
  shows "\<exists>net. getConnections (HexGame_ctor N junk) r c = Inr net \<and> distinct net \<and>
     set net = {q. m_row q < N \<and> m_col q < N \<and>
                  (int (m_row q) - int r, int (m_col q) - int c) \<in> set offsets} \<and>
     (0 < r \<and> r < N - 1 \<and> 0 < c \<and> c < N - 1 \<longrightarrow> length net = 6) \<and>
     ((r = 0 \<or> r = N - 1) \<and> 0 < c \<and> c < N - 1 \<longrightarrow> length net = 4) \<and>
     (0 < r \<and> r < N - 1 \<and> (c = 0 \<or> c = N - 1) \<longrightarrow> length net = 4) \<and>
     ((r = 0 \<and> c = 0) \<or> (r = N - 1 \<and> c = N - 1) \<longrightarrow> length net = 2) \<and>
     ((r = 0 \<and> c = N - 1) \<or> (r = N - 1 \<and> c = 0) \<longrightarrow> length net = 3) \<and>
     (\<forall>r' c'. r' < N \<and> c' < N \<longrightarrow>
        (Position_ctor r' c' \<in> set net \<longleftrightarrow>
         (\<exists>net'. getConnections (HexGame_ctor N junk) r' c' = Inr net' \<and>
                 Position_ctor r c \<in> set net')))"
proof -
  let ?net = "Node_rows r c N 0 []"
  have g: "getConnections (HexGame_ctor N junk) r c = Inr ?net"
    by (rule getConnections_ctor[OF assms(3,4)])
  have d: "distinct ?net" by (rule distinct_Node_rows)
  have s: "set ?net = {q. m_row q < N \<and> m_col q < N \<and>
                  (int (m_row q) - int r, int (m_col q) - int c) \<in> set offsets}"
    by (simp add: set_Node_rows neighbours_def adjacent_def Position_ctor_def)
  have l: "length ?net = length (neighbour_list N r c)"
    using distinct_card[OF d] card_neighbours[OF assms(3,4)] by (simp add: set_Node_rows)
  note lc = length_neighbour_list_cases[OF assms(1,3,4), folded l]
  have sym: "\<forall>r' c'. r' < N \<and> c' < N \<longrightarrow>
        (Position_ctor r' c' \<in> set ?net \<longleftrightarrow>
         (\<exists>net'. getConnections (HexGame_ctor N junk) r' c' = Inr net' \<and>
                 Position_ctor r c \<in> set net'))"
  proof (intro allI impI)
    fix r' c' assume b: "r' < N \<and> c' < N"
    then have g': "getConnections (HexGame_ctor N junk) r' c' = Inr (Node_rows r' c' N 0 [])"
      by (simp add: getConnections_ctor)
    show "Position_ctor r' c' \<in> set ?net \<longleftrightarrow>
         (\<exists>net'. getConnections (HexGame_ctor N junk) r' c' = Inr net' \<and>
                 Position_ctor r c \<in> set net')"
      using b assms(3,4) adjacent_sym[of "Position_ctor r c" "Position_ctor r' c'"]
      by (simp add: g' set_Node_rows neighbours_def Position_ctor_def)
  qed
  show ?thesis
    apply (rule exI[of _ ?net])
    apply (intro conjI)
    apply (rule g, rule d, rule s, rule lc(1), rule lc(2), rule lc(3), rule lc(4), rule lc(5), rule sym)
    done
qed

theorem connections_six_offsets_witness:
  "(3::nat) \<le> 3 \<and> (3::nat) \<le> 11 \<and> (1::nat) < 3 \<and>
   (\<exists>net. getConnections (HexGame_ctor 3 (\<lambda>row col. False)) 1 1 = Inr net \<and> length net = 6)"
proof -
  have "\<exists>net. getConnections (HexGame_ctor 3 (\<lambda>row col. False)) 1 1 = Inr net \<and> length net = 6"
    using connections_six_offsets[of 3 1 1 "\<lambda>row col. False"] by simp blast
  then show ?thesis by simp
qed


section \<open>Access to nodes and the traverse marks\<close>

definition inb :: "HexGame \<Rightarrow> Position \<Rightarrow> bool" where
  "inb g p = (m_row p < m_size g \<and> m_col p < m_size g)"

definition node_at :: "HexGame \<Rightarrow> Position \<Rightarrow> Node" where
  "node_at g p = m_tree g ! m_row p ! m_col p"

definition colour_at :: "HexGame \<Rightarrow> Position \<Rightarrow> NodeColour" where
  "colour_at g p = m_colour (node_at g p)"

definition marked :: "HexGame \<Rightarrow> Position \<Rightarrow> bool" where
  "marked g p = m_traversed (node_at g p)"

definition unmarked :: "HexGame \<Rightarrow> HexGame" where
  "unmarked g = g\<lparr>m_tree := map (map (\<lambda>n. n\<lparr>m_traversed := False\<rparr>)) (m_tree g)\<rparr>"

lemma blank_unmark: "blank (n\<lparr>m_traversed := b\<rparr>) = blank n"
  by (simp add: blank_def)

lemma blank_recolour: "blank (n\<lparr>m_colour := b\<rparr>) = blank n"
  by (simp add: blank_def)

lemma wf_game_cong:
  assumes "m_size g' = m_size g" "m_limits g' = m_limits g"
    "m_play_maximum g' = m_play_maximum g"
    "map (map blank) (m_tree g') = map (map blank) (m_tree g)"
  shows "wf_game g' = wf_game g"
proof -
  have "g'\<lparr>m_tree := map (map blank) (m_tree g'), m_play_total := 0\<rparr> =
        g\<lparr>m_tree := map (map blank) (m_tree g), m_play_total := 0\<rparr>"
    using assms by (intro HexGame.equality) simp_all
  then show ?thesis unfolding wf_game_def using assms(1) by simp
qed

lemma wf_unmarked: "wf_game (unmarked g) = wf_game g"
  by (rule wf_game_cong) (simp_all add: unmarked_def comp_def blank_unmark)

lemma unmarked_fields:
  "m_size (unmarked g) = m_size g" "m_limits (unmarked g) = m_limits g"
  "m_play_total (unmarked g) = m_play_total g" "m_play_maximum (unmarked g) = m_play_maximum g"
  by (simp_all add: unmarked_def)

lemma same_fields:
  assumes "unmarked g' = unmarked g"
  shows "m_size g' = m_size g" "m_limits g' = m_limits g"
  "m_play_total g' = m_play_total g" "m_play_maximum g' = m_play_maximum g"
  using unmarked_fields[of g] unmarked_fields[of g'] assms by simp_all

lemma same_wf: "unmarked g' = unmarked g \<Longrightarrow> wf_game g' = wf_game g"
  using wf_unmarked[of g] wf_unmarked[of g'] by simp

lemma same_inb: "unmarked g' = unmarked g \<Longrightarrow> inb g' p = inb g p"
  using same_fields(1)[of g' g] by (simp add: inb_def)

lemma wf_node_at:
  assumes "wf_game g" "inb g p"
  shows "getNode g (m_row p) (m_col p) = Inr (node_at g p)"
    "m_row (node_at g p) = m_row p" "m_col (node_at g p) = m_col p"
    "m_connections (node_at g p) = Node_rows (m_row p) (m_col p) (m_size g) 0 []"
  using assms wf_getNode[of g "m_row p" "m_col p"] wf_node_fields[of g "m_row p" "m_col p"]
  by (simp_all add: inb_def node_at_def)

lemma unmarked_tree:
  "unmarked g' = unmarked g \<Longrightarrow>
   map (map (\<lambda>n. n\<lparr>m_traversed := False\<rparr>)) (m_tree g') =
   map (map (\<lambda>n. n\<lparr>m_traversed := False\<rparr>)) (m_tree g)"
  unfolding unmarked_def by (drule arg_cong[where f = m_tree]) simp

lemma nth_map_map:
  "r < length t \<Longrightarrow> c < length (t ! r) \<Longrightarrow> map (map f) t ! r ! c = f (t ! r ! c)"
  by simp

lemma same_node_at:
  assumes "unmarked g' = unmarked g" "wf_game g" "inb g p"
  shows "(node_at g' p)\<lparr>m_traversed := False\<rparr> = (node_at g p)\<lparr>m_traversed := False\<rparr>"
proof -
  let ?u = "\<lambda>n::Node. n\<lparr>m_traversed := False\<rparr>"
  have w': "wf_game g'" using same_wf[OF assms(1)] assms(2) by simp
  have s: "m_size g' = m_size g" using assms(1) by (rule same_fields)
  have r: "m_row p < m_size g" and c: "m_col p < m_size g" using assms(3) by (simp_all add: inb_def)
  have r': "m_row p < m_size g'" using r s by simp
  have l: "m_row p < length (m_tree g)" using r wf_game_length[OF assms(2)] by simp
  have l': "m_row p < length (m_tree g')" using r' wf_game_length[OF w'] by simp
  have k: "m_col p < length (m_tree g ! m_row p)"
    using c wf_game_row_length[OF assms(2) r] by simp
  have k': "m_col p < length (m_tree g' ! m_row p)"
    using c s wf_game_row_length[OF w' r'] by simp
  have "map (map ?u) (m_tree g') ! m_row p ! m_col p = map (map ?u) (m_tree g) ! m_row p ! m_col p"
    by (simp only: unmarked_tree[OF assms(1)])
  then show ?thesis
    unfolding nth_map_map[OF l k] nth_map_map[OF l' k'] node_at_def .
qed

lemma same_colour_at:
  assumes "unmarked g' = unmarked g" "wf_game g" "inb g p"
  shows "colour_at g' p = colour_at g p"
  using arg_cong[where f = m_colour, OF same_node_at[OF assms]] by (simp add: colour_at_def)

lemma putNode_fields:
  "m_size (putNode g r c n) = m_size g" "m_limits (putNode g r c n) = m_limits g"
  "m_play_total (putNode g r c n) = m_play_total g"
  "m_play_maximum (putNode g r c n) = m_play_maximum g"
  by (simp_all add: putNode_def)

lemma map_map_update_id:
  assumes "r < length t" "c < length (t ! r)" "f n = f (t ! r ! c)"
  shows "map (map f) (t[r := (t ! r)[c := n]]) = map (map f) t"
proof -
  have "map f ((t ! r)[c := n]) = map f (t ! r)"
    using assms(2,3) by (simp add: map_update) (metis list_update_id nth_map length_map)
  then show ?thesis
    using assms(1) by (simp add: map_update) (metis list_update_id nth_map length_map)
qed

lemma putNode_mark_same:
  assumes "wf_game g" "inb g p"
  shows "unmarked (putNode g (m_row p) (m_col p) ((node_at g p)\<lparr>m_traversed := b\<rparr>)) = unmarked g"
proof -
  have r: "m_row p < length (m_tree g)" and c: "m_col p < length (m_tree g ! m_row p)"
    using assms wf_game_length[OF assms(1)] wf_game_row_length[OF assms(1), of "m_row p"]
    by (simp_all add: inb_def)
  show ?thesis
    unfolding unmarked_def putNode_def
    using map_map_update_id[OF r c, of "\<lambda>n. n\<lparr>m_traversed := False\<rparr>" "(node_at g p)\<lparr>m_traversed := b\<rparr>"]
    by (simp add: node_at_def)
qed

lemma putNode_node_at:
  assumes "wf_game g" "inb g p" "inb g q"
  shows "node_at (putNode g (m_row p) (m_col p) n) q = (if q = p then n else node_at g q)"
proof -
  have r: "m_row p < length (m_tree g)" and c: "m_col p < length (m_tree g ! m_row p)"
    using assms wf_game_length[OF assms(1)] wf_game_row_length[OF assms(1), of "m_row p"]
    by (simp_all add: inb_def)
  have r': "m_row q < length (m_tree g)" and c': "m_col q < length (m_tree g ! m_row q)"
    using assms wf_game_length[OF assms(1)] wf_game_row_length[OF assms(1), of "m_row q"]
    by (simp_all add: inb_def)
  have e: "q = p \<longleftrightarrow> m_row q = m_row p \<and> m_col q = m_col p" by auto
  show ?thesis
    unfolding node_at_def putNode_def e using r c r' c'
    by (auto simp: nth_list_update)
qed

section \<open>The search of \<^verbatim>\<open>findPath\<close>\<close>

definition at_limit :: "HexGame \<Rightarrow> NodeColour \<Rightarrow> Node \<Rightarrow> bool" where
  "at_limit g colour temp = (fst (compare g colour temp) = snd (compare g colour temp))"

definition mark :: "HexGame \<Rightarrow> Position \<Rightarrow> HexGame" where
  "mark g p = putNode g (m_row p) (m_col p) ((node_at g p)\<lparr>m_traversed := True\<rparr>)"

lemma findPath_Cons:
  assumes "wf_game g" "inb g node"
  shows "findPath colour (node # net) ret g =
    (if at_limit g colour (node_at g node) \<and> colour_at g node = colour then Inr (True, g)
     else if colour_at g node = colour \<and> \<not> marked g node
     then (case findPath colour (m_connections (node_at g node)) False (mark g node) of
             Inl e \<Rightarrow> Inl e
           | Inr (r, g') \<Rightarrow> findPath colour net (ret \<or> r) g')
     else findPath colour net ret g)"
  by (simp add: findPath.simps wf_node_at(1)[OF assms] Let_def at_limit_def colour_at_def
      marked_def mark_def)

lemma findPath_hit:
  assumes "wf_game g" "inb g node"
    "at_limit g colour (node_at g node) \<and> colour_at g node = colour"
  shows "findPath colour (node # net) ret g = Inr (True, g)"
  unfolding findPath_Cons[OF assms(1,2)] if_P[OF assms(3)] ..

lemma findPath_skip:
  assumes "wf_game g" "inb g node"
    "\<not> (at_limit g colour (node_at g node) \<and> colour_at g node = colour)"
    "\<not> (colour_at g node = colour \<and> \<not> marked g node)"
  shows "findPath colour (node # net) ret g = findPath colour net ret g"
  unfolding findPath_Cons[OF assms(1,2)] if_not_P[OF assms(3)] if_not_P[OF assms(4)] ..

lemma findPath_descend:
  assumes "wf_game g" "inb g node"
    "\<not> (at_limit g colour (node_at g node) \<and> colour_at g node = colour)"
    "colour_at g node = colour \<and> \<not> marked g node"
    "findPath colour (m_connections (node_at g node)) False (mark g node) = Inr (b, g2)"
  shows "findPath colour (node # net) ret g = findPath colour net (ret \<or> b) g2"
  unfolding findPath_Cons[OF assms(1,2)] if_not_P[OF assms(3)] if_P[OF assms(4)] assms(5)
  by simp

lemma mark_same: "wf_game g \<Longrightarrow> inb g p \<Longrightarrow> unmarked (mark g p) = unmarked g"
  unfolding mark_def by (rule putNode_mark_same)

lemma mark_wf: "wf_game g \<Longrightarrow> inb g p \<Longrightarrow> wf_game (mark g p)"
  using same_wf[OF mark_same, of g p] by simp

lemma connections_inb:
  assumes "wf_game g" "inb g p"
  shows "list_all (inb g) (m_connections (node_at g p))"
  unfolding list_all_iff wf_node_at(4)[OF assms] set_Node_rows
  by (simp add: neighbours_def inb_def)

lemma same_list_all_inb:
  "unmarked g' = unmarked g \<Longrightarrow> list_all (inb g') ps = list_all (inb g) ps"
  using same_inb[of g' g] by (simp add: list_all_iff)

lemma findPath_total:
  "wf_game g \<Longrightarrow> list_all (inb g) net \<Longrightarrow>
   \<exists>r g'. findPath colour net ret g = Inr (r, g') \<and> unmarked g' = unmarked g"
proof (induction colour net ret g rule: findPath.induct)
  case (1 colour ret g)
  then show ?case by (simp add: findPath.simps)
next
  case (2 colour node net ret g)
  from "2.prems" have nb: "inb g node" and rest: "list_all (inb g) net" by simp_all
  note w = "2.prems"(1)
  let ?temp = "node_at g node"
  let ?g1 = "mark g node"
  have temp: "getNode g (m_row node) (m_col node) = Inr ?temp" by (rule wf_node_at(1)[OF w nb])
  show ?case
  proof (cases "at_limit g colour ?temp \<and> colour_at g node = colour")
    case True
    show ?thesis unfolding findPath_hit[OF w nb True] by blast
  next
    case nl: False
    then have nl': "\<not> (fst (compare g colour ?temp) = snd (compare g colour ?temp) \<and> m_colour ?temp = colour)"
      by (simp add: at_limit_def colour_at_def)
    show ?thesis
    proof (cases "colour_at g node = colour \<and> \<not> marked g node")
      case True
      then have d: "m_colour ?temp = colour \<and> m_traversed ?temp = False"
        by (simp add: colour_at_def marked_def)
      have w1: "wf_game ?g1" by (rule mark_wf[OF w nb])
      have s1: "unmarked ?g1 = unmarked g" by (rule mark_same[OF w nb])
      have c1: "list_all (inb ?g1) (m_connections ?temp)"
        using connections_inb[OF w nb] same_list_all_inb[OF s1] by simp
      from "2.IH"(1)[OF temp refl nl' d w1[unfolded mark_def] c1[unfolded mark_def]]
      obtain b g2 where inner: "findPath colour (m_connections ?temp) False ?g1 = Inr (b, g2)"
        and s2: "unmarked g2 = unmarked ?g1"
        unfolding mark_def by blast
      have w2: "wf_game g2" using same_wf[OF s2] w1 by simp
      have c2: "list_all (inb g2) net"
        using rest same_list_all_inb[OF s2] same_list_all_inb[OF s1] by simp
      from "2.IH"(2)[OF temp refl nl' d inner[unfolded mark_def] refl w2 c2]
      obtain r g' where outer: "findPath colour net (ret \<or> b) g2 = Inr (r, g')"
        and s3: "unmarked g' = unmarked g2" by blast
      show ?thesis
        unfolding findPath_descend[OF w nb nl True inner] using outer s1 s2 s3 by simp
    next
      case False
      then have d: "\<not> (m_colour ?temp = colour \<and> m_traversed ?temp = False)"
        by (simp add: colour_at_def marked_def)
      from "2.IH"(3)[OF temp refl nl' d w rest] show ?thesis
        unfolding findPath_skip[OF w nb nl False] .
    qed
  qed
qed

lemma findPath_induct_wf [consumes 3, case_names Nil hit descend skip]:
  assumes "findPath colour net ret g = Inr (r, g')" "wf_game g" "list_all (inb g) net"
  and Nil: "\<And>ret g. wf_game g \<Longrightarrow> P [] ret g ret g"
  and hit: "\<And>node net ret g. wf_game g \<Longrightarrow> inb g node \<Longrightarrow> list_all (inb g) net \<Longrightarrow>
      at_limit g colour (node_at g node) \<Longrightarrow> colour_at g node = colour \<Longrightarrow>
      P (node # net) ret g True g"
  and descend: "\<And>node net ret g b g2 r g'. wf_game g \<Longrightarrow> inb g node \<Longrightarrow>
      list_all (inb g) net \<Longrightarrow>
      \<not> (at_limit g colour (node_at g node) \<and> colour_at g node = colour) \<Longrightarrow>
      colour_at g node = colour \<Longrightarrow> \<not> marked g node \<Longrightarrow>
      findPath colour (m_connections (node_at g node)) False (mark g node) = Inr (b, g2) \<Longrightarrow>
      unmarked g2 = unmarked g \<Longrightarrow> wf_game g2 \<Longrightarrow>
      findPath colour net (ret \<or> b) g2 = Inr (r, g') \<Longrightarrow> unmarked g' = unmarked g \<Longrightarrow>
      P (m_connections (node_at g node)) False (mark g node) b g2 \<Longrightarrow>
      P net (ret \<or> b) g2 r g' \<Longrightarrow> P (node # net) ret g r g'"
  and skip: "\<And>node net ret g r g'. wf_game g \<Longrightarrow> inb g node \<Longrightarrow>
      list_all (inb g) net \<Longrightarrow>
      \<not> (at_limit g colour (node_at g node) \<and> colour_at g node = colour) \<Longrightarrow>
      \<not> (colour_at g node = colour \<and> \<not> marked g node) \<Longrightarrow>
      findPath colour net ret g = Inr (r, g') \<Longrightarrow> unmarked g' = unmarked g \<Longrightarrow>
      P net ret g r g' \<Longrightarrow> P (node # net) ret g r g'"
  shows "P net ret g r g'"
proof -
  have "findPath c net ret g = Inr (r, g') \<Longrightarrow> c = colour \<Longrightarrow> wf_game g \<Longrightarrow>
        list_all (inb g) net \<Longrightarrow> P net ret g r g'" for c
proof (induction c net ret g arbitrary: r g' rule: findPath.induct)
  case (1 c ret g)
  then show ?case using Nil by (simp add: findPath.simps)
next
  case (2 c node net ret g)
  from "2.prems" have nb: "inb g node" and rest: "list_all (inb g) net" by simp_all
  note w = "2.prems"(3)
  note c = "2.prems"(2)
  note call = "2.prems"(1)[unfolded c]
  note IH = "2.IH"[unfolded c]
  let ?temp = "node_at g node"
  let ?g1 = "mark g node"
  have temp: "getNode g (m_row node) (m_col node) = Inr ?temp" by (rule wf_node_at(1)[OF w nb])
  show ?case
  proof (cases "at_limit g colour ?temp \<and> colour_at g node = colour")
    case True
    with call have "r = True" "g' = g" by (simp_all add: findPath_hit[OF w nb True])
    then show ?thesis using hit[OF w nb rest] True by simp
  next
    case nl: False
    then have nl': "\<not> (fst (compare g colour ?temp) = snd (compare g colour ?temp) \<and> m_colour ?temp = colour)"
      by (simp add: at_limit_def colour_at_def)
    show ?thesis
    proof (cases "colour_at g node = colour \<and> \<not> marked g node")
      case True
      then have d: "m_colour ?temp = colour \<and> m_traversed ?temp = False"
        by (simp add: colour_at_def marked_def)
      have w1: "wf_game ?g1" by (rule mark_wf[OF w nb])
      have s1: "unmarked ?g1 = unmarked g" by (rule mark_same[OF w nb])
      have c1: "list_all (inb ?g1) (m_connections ?temp)"
        using connections_inb[OF w nb] same_list_all_inb[OF s1] by simp
      from findPath_total[OF w1 c1, of colour False]
      obtain b g2 where inner: "findPath colour (m_connections ?temp) False ?g1 = Inr (b, g2)"
        and s2: "unmarked g2 = unmarked ?g1" by blast
      have w2: "wf_game g2" using same_wf[OF s2] w1 by simp
      have c2: "list_all (inb g2) net"
        using rest same_list_all_inb[OF s2] same_list_all_inb[OF s1] by simp
      have outer: "findPath colour net (ret \<or> b) g2 = Inr (r, g')"
        using call unfolding findPath_descend[OF w nb nl True inner] .
      from findPath_total[OF w2 c2, of colour "ret \<or> b"] outer
      have s3: "unmarked g' = unmarked g2" by simp
      have P1: "P (m_connections ?temp) False ?g1 b g2"
        using IH(1)[OF temp refl nl' d inner[unfolded mark_def] refl w1[unfolded mark_def] c1[unfolded mark_def]]
        unfolding mark_def .
      have P2: "P net (ret \<or> b) g2 r g'"
        using IH(2)[OF temp refl nl' d inner[unfolded mark_def] refl outer refl w2 c2] .
      show ?thesis
        using descend[OF w nb rest nl conjunct1[OF True] conjunct2[OF True] inner _ w2 outer _ P1 P2]
          s1 s2 s3 by simp
    next
      case False
      then have d: "\<not> (m_colour ?temp = colour \<and> m_traversed ?temp = False)"
        by (simp add: colour_at_def marked_def)
      have eq: "findPath colour net ret g = Inr (r, g')"
        using call unfolding findPath_skip[OF w nb nl False] .
      from findPath_total[OF w rest, of colour ret] eq have s: "unmarked g' = unmarked g" by simp
      from IH(3)[OF temp refl nl' d eq refl w rest]
      show ?thesis using skip[OF w nb rest nl False eq s] by simp
    qed
  qed
qed
  from this[OF assms(1) refl assms(2,3)] show ?thesis .
qed

definition on_end :: "HexGame \<Rightarrow> NodeColour \<Rightarrow> Position \<Rightarrow> bool" where
  "on_end g colour p =
     (if colour = GREEN then m_col p = m_col (m_limits g) else m_row p = m_row (m_limits g))"

definition on_start :: "NodeColour \<Rightarrow> Position \<Rightarrow> bool" where
  "on_start colour p = (if colour = GREEN then m_col p = 0 else m_row p = 0)"

definition cstep :: "HexGame \<Rightarrow> NodeColour \<Rightarrow> (Position \<times> Position) set" where
  "cstep g colour = {(p, q). inb g p \<and> inb g q \<and> adjacent p q \<and>
                             colour_at g p = colour \<and> colour_at g q = colour}"

definition goal_reach :: "HexGame \<Rightarrow> NodeColour \<Rightarrow> Position set" where
  "goal_reach g colour =
     {p. \<exists>q. (p, q) \<in> (cstep g colour)\<^sup>* \<and> inb g q \<and> colour_at g q = colour \<and> on_end g colour q}"

lemma at_limit_on_end:
  "wf_game g \<Longrightarrow> inb g p \<Longrightarrow> at_limit g colour (node_at g p) = on_end g colour p"
  by (simp add: at_limit_def compare_def on_end_def wf_node_at)

lemma same_on_end: "unmarked g' = unmarked g \<Longrightarrow> on_end g' colour p = on_end g colour p"
  using same_fields(2)[of g' g] by (simp add: on_end_def)

lemma same_cstep:
  assumes "unmarked g' = unmarked g" "wf_game g"
  shows "cstep g' colour = cstep g colour"
  unfolding cstep_def
  using same_inb[OF assms(1)] same_colour_at[OF assms]
  by auto

lemma same_goal_reach:
  assumes "unmarked g' = unmarked g" "wf_game g"
  shows "goal_reach g' colour = goal_reach g colour"
  unfolding goal_reach_def same_cstep[OF assms]
  using same_inb[OF assms(1)] same_colour_at[OF assms] same_on_end[OF assms(1)]
  by auto

lemma goal_reach_coloured: "p \<in> goal_reach g colour \<Longrightarrow> colour_at g p = colour \<and> inb g p"
  unfolding goal_reach_def
  by (auto simp: cstep_def elim: converse_rtranclE)

lemma connections_adjacent:
  assumes "wf_game g" "inb g p"
  shows "set (m_connections (node_at g p)) = {q. inb g q \<and> adjacent p q}"
proof -
  have "Position_ctor (m_row p) (m_col p) = p" by (simp add: Position_ctor_def)
  then show ?thesis
    unfolding wf_node_at(4)[OF assms] set_Node_rows neighbours_def inb_def by simp
qed

lemma goal_reach_step:
  assumes "wf_game g" "inb g p" "colour_at g p = colour"
    "q \<in> set (m_connections (node_at g p))" "q \<in> goal_reach g colour"
  shows "p \<in> goal_reach g colour"
proof -
  from assms(4) have a: "inb g q" "adjacent p q"
    unfolding connections_adjacent[OF assms(1,2)] by simp_all
  from goal_reach_coloured[OF assms(5)] have c: "colour_at g q = colour" by simp
  have "(p, q) \<in> cstep g colour" using assms(2,3) a c by (simp add: cstep_def)
  then show ?thesis using assms(5) unfolding goal_reach_def
    by (auto intro: converse_rtrancl_into_rtrancl)
qed

lemma findPath_ret_mono:
  assumes "findPath colour net ret g = Inr (r, g')" "wf_game g" "list_all (inb g) net"
  shows "ret \<longrightarrow> r"
  using assms by (induction rule: findPath_induct_wf) simp_all

lemma findPath_sound:
  assumes "findPath colour net ret g = Inr (r, g')" "wf_game g" "list_all (inb g) net"
  shows "r \<and> \<not> ret \<longrightarrow> (\<exists>n\<in>set net. n \<in> goal_reach g colour)"
  using assms
proof (induction rule: findPath_induct_wf)
  case (Nil ret g)
  then show ?case by simp
next
  case (hit node net ret g)
  then have "on_end g colour node" by (simp add: at_limit_on_end)
  with hit have "node \<in> goal_reach g colour" unfolding goal_reach_def by auto
  then show ?case by auto
next
  case (descend node net ret g b g2 r g')
  have s1: "unmarked (mark g node) = unmarked g" by (rule mark_same[OF descend(1,2)])
  show ?case
  proof (cases b)
    case True
    with descend(12) obtain n where n: "n \<in> set (m_connections (node_at g node))"
      "n \<in> goal_reach (mark g node) colour" by auto
    from n(2) have "n \<in> goal_reach g colour" by (simp add: same_goal_reach[OF s1 descend(1)])
    from goal_reach_step[OF descend(1,2,5) n(1) this] show ?thesis by auto
  next
    case False
    with descend(13) show ?thesis
      by (auto simp: same_goal_reach[OF descend(8) descend(1)])
  qed
next
  case (skip node net ret g r g')
  then show ?case by auto
qed

lemma marked_mark:
  assumes "wf_game g" "inb g p" "inb g q"
  shows "marked (mark g p) q = (q = p \<or> marked g q)"
  unfolding marked_def mark_def putNode_node_at[OF assms] by simp

lemma findPath_marks_mono:
  assumes "findPath colour net ret g = Inr (r, g')" "wf_game g" "list_all (inb g) net"
  shows "\<forall>p. inb g p \<and> marked g p \<longrightarrow> marked g' p"
  using assms
proof (induction rule: findPath_induct_wf)
  case (descend node net ret g b g2 r g')
  have s1: "unmarked (mark g node) = unmarked g" by (rule mark_same[OF descend(1,2)])
  show ?case
  proof (intro allI impI)
    fix p assume p: "inb g p \<and> marked g p"
    then have "marked (mark g node) p" by (simp add: marked_mark[OF descend(1,2)])
    with descend(12) p same_inb[OF s1, of p] have "marked g2 p" by simp
    with descend(13) p same_inb[OF descend(8), of p] show "marked g' p" by simp
  qed
qed simp_all

lemma findPath_complete:
  assumes "findPath colour net ret g = Inr (r, g')" "wf_game g" "list_all (inb g) net"
  shows "\<not> r \<longrightarrow>
     (\<forall>n\<in>set net. colour_at g n = colour \<longrightarrow> marked g' n \<and> \<not> on_end g colour n) \<and>
     (\<forall>p. inb g p \<and> marked g' p \<and> \<not> marked g p \<longrightarrow>
          colour_at g p = colour \<and>
          (\<forall>q. inb g q \<and> adjacent p q \<and> colour_at g q = colour \<longrightarrow>
               marked g' q \<and> \<not> on_end g colour q))"
  using assms
proof (induction rule: findPath_induct_wf)
  case (Nil ret g)
  then show ?case by simp
next
  case (hit node net ret g)
  then show ?case by simp
next
  case (descend node net ret g b g2 r g')
  let ?g1 = "mark g node"
  note w = descend(1) and nb = descend(2) and rest = descend(3)
  have s1: "unmarked ?g1 = unmarked g" by (rule mark_same[OF w nb])
  have w1: "wf_game ?g1" by (rule mark_wf[OF w nb])
  have c1: "list_all (inb ?g1) (m_connections (node_at g node))"
    using connections_inb[OF w nb] same_list_all_inb[OF s1] by simp
  have c2: "list_all (inb g2) net"
    using rest same_list_all_inb[OF descend(8)] by simp
  have s21: "unmarked g2 = unmarked ?g1" using descend(8) s1 by simp
  have s32: "unmarked g' = unmarked g2" using descend(8,11) by simp
  note ib1 = same_inb[OF s1] and ib2 = same_inb[OF descend(8)]
  note col1 = same_colour_at[OF s1 w] and col2 = same_colour_at[OF descend(8) w]
  note end1 = same_on_end[OF s1] and end2 = same_on_end[OF descend(8)]
  note mono1 = findPath_marks_mono[OF descend(7) w1 c1]
  note mono2 = findPath_marks_mono[OF descend(10) descend(9) c2]
  show ?case
  proof (intro impI)
    assume nr: "\<not> r"
    from findPath_ret_mono[OF descend(10) descend(9) c2] nr have nb': "\<not> b" and "\<not> ret" by auto
    note A1 = conjunct1[OF mp[OF descend(12) nb']]
    note B1 = conjunct2[OF mp[OF descend(12) nb']]
    note A2 = conjunct1[OF mp[OF descend(13) nr]]
    note B2 = conjunct2[OF mp[OF descend(13) nr]]
    have m1: "marked ?g1 node" using marked_mark[OF w nb nb] by simp
    then have m2: "marked g2 node" using mono1 nb ib1 by simp
    then have m3: "marked g' node" using mono2 nb ib2 by simp
    have ne: "\<not> on_end g colour node"
      using descend(4,5) at_limit_on_end[OF w nb] by simp
    have lift: "\<And>q. inb g q \<Longrightarrow> marked g2 q \<Longrightarrow> marked g' q"
      using mono2 ib2 by simp
    have nbrs: "\<And>q. inb g q \<Longrightarrow> adjacent node q \<Longrightarrow> colour_at g q = colour \<Longrightarrow>
            marked g' q \<and> \<not> on_end g colour q"
    proof -
      fix q assume q: "inb g q" "adjacent node q" "colour_at g q = colour"
      then have "q \<in> set (m_connections (node_at g node))"
        using connections_adjacent[OF w nb] by simp
      with A1 q col1[OF q(1)] end1 have "marked g2 q \<and> \<not> on_end g colour q" by simp
      then show "marked g' q \<and> \<not> on_end g colour q" using lift[OF q(1)] by simp
    qed
    have part1: "\<forall>n\<in>set (node # net). colour_at g n = colour \<longrightarrow>
                  marked g' n \<and> \<not> on_end g colour n"
    proof
      fix n assume "n \<in> set (node # net)"
      then consider "n = node" | "n \<in> set net" by auto
      then show "colour_at g n = colour \<longrightarrow> marked g' n \<and> \<not> on_end g colour n"
      proof cases
        case 1
        then show ?thesis using m3 ne by simp
      next
        case 2
        then have "inb g n" using rest by (simp add: list_all_iff)
        with A2 2 col2 end2 show ?thesis by simp
      qed
    qed
    have part2: "\<forall>p. inb g p \<and> marked g' p \<and> \<not> marked g p \<longrightarrow>
          colour_at g p = colour \<and>
          (\<forall>q. inb g q \<and> adjacent p q \<and> colour_at g q = colour \<longrightarrow>
               marked g' q \<and> \<not> on_end g colour q)"
    proof (intro allI impI)
      fix p assume p: "inb g p \<and> marked g' p \<and> \<not> marked g p"
      show "colour_at g p = colour \<and>
          (\<forall>q. inb g q \<and> adjacent p q \<and> colour_at g q = colour \<longrightarrow>
               marked g' q \<and> \<not> on_end g colour q)"
      proof (cases "p = node")
        case True
        then show ?thesis using descend(5) nbrs by simp
      next
        case False
        with p have nm1: "\<not> marked ?g1 p" using marked_mark[OF w nb, of p] by simp
        show ?thesis
        proof (cases "marked g2 p")
          case True
          with p nm1 ib1 have "inb ?g1 p \<and> marked g2 p \<and> \<not> marked ?g1 p" by simp
          from mp[OF spec[OF B1] this]
          show ?thesis using p col1 ib1 end1 lift by auto
        next
          case False
          with p ib2 have "inb g2 p \<and> marked g' p \<and> \<not> marked g2 p" by simp
          from mp[OF spec[OF B2] this]
          show ?thesis using p col2 ib2 end2 by auto
        qed
      qed
    qed
    show "(\<forall>n\<in>set (node # net). colour_at g n = colour \<longrightarrow>
                  marked g' n \<and> \<not> on_end g colour n) \<and>
       (\<forall>p. inb g p \<and> marked g' p \<and> \<not> marked g p \<longrightarrow>
          colour_at g p = colour \<and>
          (\<forall>q. inb g q \<and> adjacent p q \<and> colour_at g q = colour \<longrightarrow>
               marked g' q \<and> \<not> on_end g colour q))"
      using part1 part2 by (rule conjI)
  qed
next
  case (skip node net ret g r g')
  note w = skip(1) and nb = skip(2) and rest = skip(3)
  note mono = findPath_marks_mono[OF skip(6) w rest]
  show ?case
  proof (intro impI)
    assume nr: "\<not> r"
    note A = conjunct1[OF mp[OF skip(8) nr]]
    note B = conjunct2[OF mp[OF skip(8) nr]]
    have X: "colour_at g node = colour \<longrightarrow> marked g' node \<and> \<not> on_end g colour node"
      using skip(4,5) at_limit_on_end[OF w nb] mono nb by auto
    have part1: "\<forall>n\<in>set (node # net). colour_at g n = colour \<longrightarrow>
                  marked g' n \<and> \<not> on_end g colour n"
    proof
      fix n assume "n \<in> set (node # net)"
      then consider "n = node" | "n \<in> set net" by auto
      then show "colour_at g n = colour \<longrightarrow> marked g' n \<and> \<not> on_end g colour n"
      proof cases
        case 1
        then show ?thesis using X by simp
      next
        case 2
        then show ?thesis using bspec[OF A 2] by simp
      qed
    qed
    show "(\<forall>n\<in>set (node # net). colour_at g n = colour \<longrightarrow>
                  marked g' n \<and> \<not> on_end g colour n) \<and>
       (\<forall>p. inb g p \<and> marked g' p \<and> \<not> marked g p \<longrightarrow>
          colour_at g p = colour \<and>
          (\<forall>q. inb g q \<and> adjacent p q \<and> colour_at g q = colour \<longrightarrow>
               marked g' q \<and> \<not> on_end g colour q))"
      using part1 B by (rule conjI)
  qed
qed


section \<open>\<^verbatim>\<open>clearAllTraverse\<close> and the loop of \<^verbatim>\<open>checkWin\<close>\<close>

definition rect :: "HexGame \<Rightarrow> bool" where
  "rect g = (length (m_tree g) = m_size g \<and> (\<forall>row\<in>set (m_tree g). length row = m_size g))"

lemma wf_rect: "wf_game g \<Longrightarrow> rect g"
  unfolding rect_def using wf_game_length[of g] wf_game_row_length[of g]
  by (metis in_set_conv_nth)

lemma rect_update:
  assumes "rect g" "length row = m_size g"
  shows "rect (g\<lparr>m_tree := (m_tree g)[r := row]\<rparr>)"
proof -
  have "set ((m_tree g)[r := row]) \<subseteq> insert row (set (m_tree g))"
    by (rule set_update_subset_insert)
  then show ?thesis using assms unfolding rect_def by auto
qed

abbreviation unmark :: "Node \<Rightarrow> Node" where
  "unmark n \<equiv> n\<lparr>m_traversed := False\<rparr>"

lemma take_map_drop_step:
  assumes "c < length xs"
  shows "take (Suc c) (xs[c := f (xs ! c)]) @ map f (drop (Suc c) (xs[c := f (xs ! c)])) =
         take c xs @ map f (drop c xs)"
proof -
  have "take (Suc c) (xs[c := f (xs ! c)]) = take c xs @ [f (xs ! c)]"
    using assms by (simp add: take_Suc_conv_app_nth)
  moreover have "drop (Suc c) (xs[c := f (xs ! c)]) = drop (Suc c) xs" by simp
  moreover have "drop c xs = xs ! c # drop (Suc c) xs"
    using assms by (simp add: Cons_nth_drop_Suc)
  ultimately show ?thesis by simp
qed

lemma clearAllTraverse_cols_eq:
  assumes "rect g" "r < m_size g" "c \<le> m_size g"
  shows "clearAllTraverse_cols g r c =
     Inr (g\<lparr>m_tree := (m_tree g)[r := take c (m_tree g ! r) @ map unmark (drop c (m_tree g ! r))]\<rparr>)"
  using assms
proof (induction "m_size g - c" arbitrary: g c)
  case 0
  then have "c = m_size g" by simp
  moreover have "length (m_tree g ! r) = m_size g" using 0 by (simp add: rect_def)
  ultimately show ?case
    by (subst clearAllTraverse_cols.simps) simp
next
  case (Suc k)
  then have c: "c < m_size g" by simp
  let ?t = "m_tree g"
  have lr: "r < length ?t" and lc: "c < length (?t ! r)" and lrow: "length (?t ! r) = m_size g"
    using Suc.prems c by (simp_all add: rect_def)
  let ?g1 = "putNode g r c (unmark (?t ! r ! c))"
  have ct: "clearTraverse g r c = Inr ?g1"
    using lr lc c Suc.prems by (simp add: clearTraverse_def getNode_def)
  have r1: "rect ?g1"
    unfolding putNode_def using rect_update[OF Suc.prems(1), of "(?t ! r)[c := unmark (?t ! r ! c)]" r] lrow
    by simp
  have s1: "m_size ?g1 = m_size g" by (simp add: putNode_fields)
  have k: "k = m_size ?g1 - Suc c" using Suc.hyps(2) s1 by simp
  have row1: "m_tree ?g1 ! r = (?t ! r)[c := unmark (?t ! r ! c)]"
    using lr by (simp add: putNode_def)
  have IH: "clearAllTraverse_cols ?g1 r (Suc c) =
     Inr (?g1\<lparr>m_tree := (m_tree ?g1)[r := take (Suc c) (m_tree ?g1 ! r)
                                   @ map unmark (drop (Suc c) (m_tree ?g1 ! r))]\<rparr>)"
    using Suc.hyps(1)[OF k r1] Suc.prems(2) c s1 by simp
  have "clearAllTraverse_cols g r c = clearAllTraverse_cols ?g1 r (Suc c)"
    using c ct by (simp add: clearAllTraverse_cols.simps[of g r c])
  also have "\<dots> = Inr (g\<lparr>m_tree := ?t[r := take c (?t ! r) @ map unmark (drop c (?t ! r))]\<rparr>)"
    unfolding IH row1 take_map_drop_step[OF lc, of unmark]
    by (simp add: putNode_def)
  finally show ?case .
qed

lemma clearAllTraverse_rows_eq:
  assumes "rect g" "r \<le> m_size g"
  shows "clearAllTraverse_rows g r =
     Inr (g\<lparr>m_tree := take r (m_tree g) @ map (map unmark) (drop r (m_tree g))\<rparr>)"
  using assms
proof (induction "m_size g - r" arbitrary: g r)
  case 0
  then have "r = m_size g" by simp
  moreover have "length (m_tree g) = m_size g" using 0 by (simp add: rect_def)
  ultimately show ?case
    by (subst clearAllTraverse_rows.simps) simp
next
  case (Suc k)
  then have r: "r < m_size g" by simp
  let ?t = "m_tree g"
  have lr: "r < length ?t" using Suc.prems r by (simp add: rect_def)
  let ?g1 = "g\<lparr>m_tree := ?t[r := map unmark (?t ! r)]\<rparr>"
  have cols: "clearAllTraverse_cols g r 0 = Inr ?g1"
    using clearAllTraverse_cols_eq[OF Suc.prems(1) r, of 0] by simp
  have lrow: "length (?t ! r) = m_size g" using Suc.prems(1) lr by (simp add: rect_def)
  have r1: "rect ?g1"
    using rect_update[OF Suc.prems(1), of "map unmark (?t ! r)" r] lrow by simp
  have k: "k = m_size ?g1 - Suc r" using Suc.hyps(2) by simp
  have IH: "clearAllTraverse_rows ?g1 (Suc r) =
     Inr (?g1\<lparr>m_tree := take (Suc r) (m_tree ?g1) @ map (map unmark) (drop (Suc r) (m_tree ?g1))\<rparr>)"
    using Suc.hyps(1)[OF k r1] r by simp
  have "clearAllTraverse_rows g r = clearAllTraverse_rows ?g1 (Suc r)"
    using r cols by (simp add: clearAllTraverse_rows.simps[of g r])
  also have "\<dots> = Inr (g\<lparr>m_tree := take r ?t @ map (map unmark) (drop r ?t)\<rparr>)"
    unfolding IH using take_map_drop_step[OF lr, of "map unmark"] by simp
  finally show ?case .
qed

lemma clearAllTraverse_eq: "rect g \<Longrightarrow> clearAllTraverse g = Inr (unmarked g)"
  unfolding clearAllTraverse_def unmarked_def
  by (simp add: clearAllTraverse_rows_eq)

definition seed :: "Player \<Rightarrow> Coordinate \<Rightarrow> Position" where
  "seed player idx = (if player = FIRST then Position_ctor idx 0 else Position_ctor 0 idx)"

lemma seed_inb: "idx < m_size g \<Longrightarrow> inb g (seed player idx)"
  by (simp add: seed_def inb_def Position_ctor_def)

lemma seed_rc:
  "m_row (seed player idx) = (if player = FIRST then idx else 0)"
  "m_col (seed player idx) = (if player = FIRST then 0 else idx)"
  by (simp_all add: seed_def Position_ctor_def)

lemma checkWin_loop_step:
  assumes "wf_game g" "idx < m_size g"
  shows "checkWin_loop g player idx ret =
    (if colour_at g (seed player idx) = convertPlayer player \<and> \<not> marked g (seed player idx)
     then (case findPath (convertPlayer player) (m_connections (node_at g (seed player idx))) False
                  (mark g (seed player idx)) of
             Inl e \<Rightarrow> Inl e
           | Inr (r', g2) \<Rightarrow> if r' then Inr (True, g2) else checkWin_loop g2 player (Suc idx) r')
     else checkWin_loop g player (Suc idx) ret)"
proof -
  let ?s = "seed player idx"
  have ib: "inb g ?s" by (rule seed_inb[OF assms(2)])
  note gn = wf_node_at(1)[OF assms(1) ib, unfolded seed_rc]
  have ib1: "inb (mark g ?s) ?s" using ib same_inb[OF mark_same[OF assms(1) ib]] by simp
  have "node_at (mark g ?s) ?s = (node_at g ?s)\<lparr>m_traversed := True\<rparr>"
    unfolding mark_def using putNode_node_at[OF assms(1) ib ib] by simp
  then have gn1: "getNode (mark g ?s) (if player = FIRST then idx else 0)
       (if player = FIRST then 0 else idx) = Inr ((node_at g ?s)\<lparr>m_traversed := True\<rparr>)"
    using wf_node_at(1)[OF mark_wf[OF assms(1) ib] ib1, unfolded seed_rc] by simp
  have mk: "putNode g (if player = FIRST then idx else 0) (if player = FIRST then 0 else idx)
       ((node_at g ?s)\<lparr>m_traversed := True\<rparr>) = mark g ?s"
    by (simp add: mark_def seed_rc)
  show ?thesis
    apply (subst checkWin_loop.simps)
    apply (simp only: Let_def assms(2) if_True isNodeColour_def getTraverse_def setTraverse_def
        getConnections_def gn sum.case mk gn1)
    apply (simp add: colour_at_def marked_def split: sum.splits prod.splits)
    done
qed

lemma checkWin_loop_done:
  "\<not> idx < m_size g \<Longrightarrow> checkWin_loop g player idx ret = Inr (ret, g)"
  by (subst checkWin_loop.simps) simp

lemma checkWin_loop_total:
  assumes "wf_game g"
  shows "\<exists>b g'. checkWin_loop g player idx ret = Inr (b, g') \<and> unmarked g' = unmarked g"
  using assms
proof (induction "m_size g - idx" arbitrary: g idx ret)
  case 0
  then show ?case by (simp add: checkWin_loop_done)
next
  case (Suc k)
  then have i: "idx < m_size g" by simp
  let ?s = "seed player idx"
  let ?c = "convertPlayer player"
  have ib: "inb g ?s" by (rule seed_inb[OF i])
  note w = Suc.prems
  show ?case
  proof (cases "colour_at g ?s = ?c \<and> \<not> marked g ?s")
    case True
    have w1: "wf_game (mark g ?s)" by (rule mark_wf[OF w ib])
    have s1: "unmarked (mark g ?s) = unmarked g" by (rule mark_same[OF w ib])
    have c1: "list_all (inb (mark g ?s)) (m_connections (node_at g ?s))"
      using connections_inb[OF w ib] same_list_all_inb[OF s1] by simp
    from findPath_total[OF w1 c1, of ?c False]
    obtain r g2 where fp: "findPath ?c (m_connections (node_at g ?s)) False (mark g ?s) = Inr (r, g2)"
      and s2: "unmarked g2 = unmarked (mark g ?s)" by blast
    have w2: "wf_game g2" using same_wf[OF s2] w1 by simp
    have sz: "m_size g2 = m_size g" using same_fields(1)[OF s2] same_fields(1)[OF s1] by simp
    show ?thesis
    proof (cases r)
      case True
      then show ?thesis
        unfolding checkWin_loop_step[OF w i] using \<open>colour_at g ?s = ?c \<and> \<not> marked g ?s\<close> fp s1 s2
        by auto
    next
      case False
      have k: "k = m_size g2 - Suc idx" using Suc.hyps(2) sz by simp
      from Suc.hyps(1)[OF k w2, of r] False s1 s2
      show ?thesis
        unfolding checkWin_loop_step[OF w i] using \<open>colour_at g ?s = ?c \<and> \<not> marked g ?s\<close> fp
        by simp
    qed
  next
    case False
    have k: "k = m_size g - Suc idx" using Suc.hyps(2) by simp
    from Suc.hyps(1)[OF k w, of ret] show ?thesis
      unfolding checkWin_loop_step[OF w i] if_not_P[OF False] .
  qed
qed

definition winning :: "HexGame \<Rightarrow> NodeColour \<Rightarrow> bool" where
  "winning g colour =
     (\<exists>p. inb g p \<and> on_start colour p \<and> colour_at g p = colour \<and> p \<in> goal_reach g colour)"

definition closed_marks :: "HexGame \<Rightarrow> NodeColour \<Rightarrow> bool" where
  "closed_marks g colour =
     (\<forall>p. inb g p \<and> marked g p \<longrightarrow>
          colour_at g p = colour \<and>
          (\<forall>q. inb g q \<and> adjacent p q \<and> colour_at g q = colour \<longrightarrow>
               marked g q \<and> \<not> on_end g colour q))"

lemma closed_reach:
  assumes "closed_marks g colour" "(p, q) \<in> (cstep g colour)\<^sup>*" "marked g p" "inb g p"
  shows "inb g q \<and> marked g q \<and> (q = p \<or> \<not> on_end g colour q)"
  using assms(2)
proof (induction rule: rtrancl_induct)
  case base
  then show ?case using assms(3,4) by simp
next
  case (step y z)
  from step(2) have yz: "inb g y" "inb g z" "adjacent y z" "colour_at g z = colour"
    by (simp_all add: cstep_def)
  from step(3) have my: "inb g y \<and> marked g y" by simp
  from mp[OF spec[OF assms(1)[unfolded closed_marks_def]] my] yz
  show ?case by simp
qed

lemma start_not_end:
  assumes "wf_game g" "2 \<le> m_size g" "m_size g < 256" "on_start colour p"
  shows "\<not> on_end g colour p"
  using assms(2,4) wf_limits[OF assms(1) _ assms(3)]
  by (auto simp: on_start_def on_end_def Position_ctor_def)

lemma start_is_seed:
  assumes "inb g p" "on_start (convertPlayer player) p"
  shows "\<exists>i<m_size g. p = seed player i"
proof (cases player)
  case FIRST
  with assms have "m_row p < m_size g" "p = seed player (m_row p)"
    by (simp_all add: on_start_def convertPlayer_def seed_def inb_def Position_ctor_def)
  then show ?thesis by blast
next
  case SECOND
  with assms have "m_col p < m_size g" "p = seed player (m_col p)"
    by (simp_all add: on_start_def convertPlayer_def seed_def inb_def Position_ctor_def)
  then show ?thesis by blast
qed

lemma seed_on_start: "on_start (convertPlayer player) (seed player i)"
  by (cases player) (simp_all add: on_start_def convertPlayer_def seed_def Position_ctor_def)

lemma same_winning:
  assumes "unmarked g' = unmarked g" "wf_game g"
  shows "winning g' colour = winning g colour"
  unfolding winning_def same_goal_reach[OF assms]
  using same_inb[OF assms(1)] same_colour_at[OF assms] by auto

lemma not_winning_closed:
  assumes "wf_game g" "2 \<le> m_size g" "m_size g < 256"
    "closed_marks g (convertPlayer player)"
    "\<forall>i<m_size g. colour_at g (seed player i) = convertPlayer player \<longrightarrow> marked g (seed player i)"
  shows "\<not> winning g (convertPlayer player)"
proof
  let ?c = "convertPlayer player"
  assume "winning g ?c"
  then obtain p q where p: "inb g p" "on_start ?c p" "colour_at g p = ?c"
    and q: "(p, q) \<in> (cstep g ?c)\<^sup>*" "on_end g ?c q"
    unfolding winning_def goal_reach_def by blast
  from start_is_seed[OF p(1,2)] obtain i where "i < m_size g" "p = seed player i" by blast
  with assms(5) p(3) have "marked g p" by simp
  from closed_reach[OF assms(4) q(1) this p(1)] q(2) have "q = p" by simp
  with q(2) start_not_end[OF assms(1-3) p(2)] show False by simp
qed

lemma checkWin_loop_correct:
  assumes "wf_game g" "2 \<le> m_size g" "m_size g < 256"
    "closed_marks g (convertPlayer player)"
    "\<forall>i<idx. colour_at g (seed player i) = convertPlayer player \<longrightarrow> marked g (seed player i)"
    "idx \<le> m_size g"
  shows "\<exists>g'. checkWin_loop g player idx False = Inr (winning g (convertPlayer player), g')"
  using assms
proof (induction "m_size g - idx" arbitrary: g idx)
  case 0
  then have "idx = m_size g" by simp
  with not_winning_closed[OF "0.prems"(1-4)] "0.prems"(5)
  show ?case by (simp add: checkWin_loop_done)
next
  case (Suc k)
  then have i: "idx < m_size g" by simp
  let ?s = "seed player idx"
  let ?c = "convertPlayer player"
  have ib: "inb g ?s" by (rule seed_inb[OF i])
  note w = Suc.prems(1)
  note cl = Suc.prems(4)[unfolded closed_marks_def]
  show ?case
  proof (cases "colour_at g ?s = ?c \<and> \<not> marked g ?s")
    case True
    let ?g1 = "mark g ?s"
    have w1: "wf_game ?g1" by (rule mark_wf[OF w ib])
    have s1: "unmarked ?g1 = unmarked g" by (rule mark_same[OF w ib])
    have c1: "list_all (inb ?g1) (m_connections (node_at g ?s))"
      using connections_inb[OF w ib] same_list_all_inb[OF s1] by simp
    from findPath_total[OF w1 c1, of ?c False]
    obtain r g2 where fp: "findPath ?c (m_connections (node_at g ?s)) False ?g1 = Inr (r, g2)"
      and s2: "unmarked g2 = unmarked ?g1" by blast
    have s20: "unmarked g2 = unmarked g" using s1 s2 by simp
    have w2: "wf_game g2" using same_wf[OF s2] w1 by simp
    have sz: "m_size g2 = m_size g" using same_fields(1)[OF s20] .
    show ?thesis
    proof (cases r)
      case True
      with findPath_sound[OF fp w1 c1] obtain n where
        n: "n \<in> set (m_connections (node_at g ?s))" "n \<in> goal_reach ?g1 ?c" by auto
      from n(2) have "n \<in> goal_reach g ?c" by (simp add: same_goal_reach[OF s1 w])
      from goal_reach_step[OF w ib conjunct1[OF \<open>colour_at g ?s = ?c \<and> \<not> marked g ?s\<close>] n(1) this]
      have "winning g ?c" unfolding winning_def
        using ib seed_on_start[of player idx] \<open>colour_at g ?s = ?c \<and> \<not> marked g ?s\<close> by blast
      then show ?thesis
        unfolding checkWin_loop_step[OF w i] using \<open>colour_at g ?s = ?c \<and> \<not> marked g ?s\<close> fp True
        by simp
    next
      case False
      note ib1 = same_inb[OF s1] and ib2 = same_inb[OF s20]
      note col1 = same_colour_at[OF s1 w] and col2 = same_colour_at[OF s20 w]
      note end1 = same_on_end[OF s1] and end2 = same_on_end[OF s20]
      note mono = findPath_marks_mono[OF fp w1 c1]
      note comp = mp[OF findPath_complete[OF fp w1 c1] False]
      note A = conjunct1[OF comp] and B = conjunct2[OF comp]
      have lift: "\<And>q. inb g q \<Longrightarrow> marked g q \<Longrightarrow> marked g2 q"
        using mono ib1 marked_mark[OF w ib] by simp
      have ms: "marked g2 ?s" using mono ib ib1 marked_mark[OF w ib ib] by simp
      have nbrs: "\<And>q. inb g q \<Longrightarrow> adjacent ?s q \<Longrightarrow> colour_at g q = ?c \<Longrightarrow>
            marked g2 q \<and> \<not> on_end g ?c q"
      proof -
        fix q assume q: "inb g q" "adjacent ?s q" "colour_at g q = ?c"
        then have "q \<in> set (m_connections (node_at g ?s))"
          using connections_adjacent[OF w ib] by simp
        from bspec[OF A this] q col1[OF q(1)] end1
        show "marked g2 q \<and> \<not> on_end g ?c q" by simp
      qed
      have cl2: "closed_marks g2 ?c"
        unfolding closed_marks_def
      proof (intro allI impI)
        fix p assume p: "inb g2 p \<and> marked g2 p"
        then have ip: "inb g p" using ib2 by simp
        have "colour_at g p = ?c \<and>
          (\<forall>q. inb g q \<and> adjacent p q \<and> colour_at g q = ?c \<longrightarrow>
               marked g2 q \<and> \<not> on_end g ?c q)"
        proof (cases "p = ?s")
          case True
          then show ?thesis using \<open>colour_at g ?s = ?c \<and> \<not> marked g ?s\<close> nbrs by simp
        next
          case ps: False
          show ?thesis
          proof (cases "marked g p")
            case True
            with ip have "inb g p \<and> marked g p" by simp
            from mp[OF spec[OF cl] this] show ?thesis using lift by auto
          next
            case False
            with ps ip have "\<not> marked ?g1 p" using marked_mark[OF w ib ip] by simp
            with p ip ib1 have "inb ?g1 p \<and> marked g2 p \<and> \<not> marked ?g1 p" by simp
            from mp[OF spec[OF B] this] show ?thesis using ip col1 ib1 end1 by auto
          qed
        qed
        then show "colour_at g2 p = ?c \<and>
          (\<forall>q. inb g2 q \<and> adjacent p q \<and> colour_at g2 q = ?c \<longrightarrow>
               marked g2 q \<and> \<not> on_end g2 ?c q)"
          using ip col2 ib2 end2 by auto
      qed
      have seeds2: "\<forall>i<Suc idx. colour_at g2 (seed player i) = ?c \<longrightarrow> marked g2 (seed player i)"
      proof (intro allI impI)
        fix j assume j: "j < Suc idx" "colour_at g2 (seed player j) = ?c"
        then have ij: "inb g (seed player j)" using i by (simp add: seed_inb)
        show "marked g2 (seed player j)"
        proof (cases "j = idx")
          case True
          then show ?thesis using ms by simp
        next
          case False
          with j have "j < idx" by simp
          with Suc.prems(5) j(2) col2[OF ij] have "marked g (seed player j)" by simp
          then show ?thesis using lift[OF ij] by simp
        qed
      qed
      have k: "k = m_size g2 - Suc idx" using Suc.hyps(2) sz by simp
      from Suc.hyps(1)[OF k w2 _ _ cl2 seeds2] Suc.prems(2,3) i sz
      obtain g' where "checkWin_loop g2 player (Suc idx) False = Inr (winning g2 ?c, g')"
        by auto
      then show ?thesis
        unfolding checkWin_loop_step[OF w i]
        using \<open>colour_at g ?s = ?c \<and> \<not> marked g ?s\<close> fp False same_winning[OF s20 w, of ?c]
        by simp
    qed
  next
    case False
    have k: "k = m_size g - Suc idx" using Suc.hyps(2) by simp
    have seeds: "\<forall>j<Suc idx. colour_at g (seed player j) = ?c \<longrightarrow> marked g (seed player j)"
      using Suc.prems(5) False by (auto simp: less_Suc_eq)
    from Suc.hyps(1)[OF k w Suc.prems(2,3,4) seeds] i show ?thesis
      unfolding checkWin_loop_step[OF w i] if_not_P[OF False] by simp
  qed
qed

definition traverse_clear :: "HexGame \<Rightarrow> bool" where
  "traverse_clear g = list_all (list_all (\<lambda>n. \<not> m_traversed n)) (m_tree g)"

definition winning_chain :: "HexGame \<Rightarrow> NodeColour \<Rightarrow> Position list \<Rightarrow> bool" where
  "winning_chain g colour ps =
     (ps \<noteq> [] \<and>
      list_all (\<lambda>p. m_row p < m_size g \<and> m_col p < m_size g \<and>
                     isNodeColour g colour (m_row p) (m_col p) = Inr True) ps \<and>
      successively adjacent ps \<and>
      (if colour = GREEN then m_col (hd ps) = 0 \<and> m_col (last ps) = m_size g - 1
       else m_row (hd ps) = 0 \<and> m_row (last ps) = m_size g - 1))"

lemma traverse_clear_unmarked: "traverse_clear g \<Longrightarrow> unmarked g = g"
proof -
  assume a: "traverse_clear g"
  have "map (map unmark) (m_tree g) = m_tree g"
  proof (rule map_idI)
    fix row assume "row \<in> set (m_tree g)"
    with a have "list_all (\<lambda>n. \<not> m_traversed n) row"
      by (simp add: traverse_clear_def list_all_iff)
    then show "map unmark row = row"
      by (intro map_idI) (simp add: list_all_iff)
  qed
  then show ?thesis by (simp add: unmarked_def)
qed

lemma traverse_clear_marked:
  assumes "wf_game g" "traverse_clear g" "inb g p"
  shows "\<not> marked g p"
proof -
  have r: "m_row p < length (m_tree g)" and c: "m_col p < length (m_tree g ! m_row p)"
    using assms(3) wf_game_length[OF assms(1)] wf_game_row_length[OF assms(1), of "m_row p"]
    by (simp_all add: inb_def)
  then have "m_tree g ! m_row p \<in> set (m_tree g)" by simp
  with assms(2) have "list_all (\<lambda>n. \<not> m_traversed n) (m_tree g ! m_row p)"
    by (simp add: traverse_clear_def list_all_iff)
  with c show ?thesis by (simp add: marked_def node_at_def list_all_length)
qed

lemma isNodeColour_colour_at:
  assumes "wf_game g" "inb g p"
  shows "(isNodeColour g colour (m_row p) (m_col p) = Inr True) = (colour_at g p = colour)"
  by (simp add: isNodeColour_def wf_node_at(1)[OF assms] colour_at_def)

lemma cstep_chain:
  assumes "(p, q) \<in> (cstep g colour)\<^sup>*" "inb g p" "colour_at g p = colour"
  shows "\<exists>ps. ps \<noteq> [] \<and> hd ps = p \<and> last ps = q \<and>
              list_all (\<lambda>x. inb g x \<and> colour_at g x = colour) ps \<and> successively adjacent ps"
  using assms
proof (induction rule: converse_rtrancl_induct)
  case base
  then show ?case by (intro exI[of _ "[q]"]) simp
next
  case (step y z)
  from step(1) have yz: "inb g z" "colour_at g z = colour" "adjacent y z"
    by (simp_all add: cstep_def)
  from step(3)[OF yz(1,2)] obtain ps where ps: "ps \<noteq> []" "hd ps = z" "last ps = q"
    "list_all (\<lambda>x. inb g x \<and> colour_at g x = colour) ps" "successively adjacent ps" by blast
  show ?case
    using ps yz step(4,5)
    by (intro exI[of _ "y # ps"]) (simp add: successively_Cons)
qed

lemma chain_cstep:
  assumes "ps \<noteq> []" "list_all (\<lambda>x. inb g x \<and> colour_at g x = colour) ps"
    "successively adjacent ps"
  shows "(hd ps, last ps) \<in> (cstep g colour)\<^sup>*"
  using assms
proof (induction ps)
  case Nil
  then show ?case by simp
next
  case (Cons a ps)
  show ?case
  proof (cases "ps = []")
    case True
    then show ?thesis by simp
  next
    case False
    with Cons.prems have "(a, hd ps) \<in> cstep g colour"
      by (cases ps) (simp_all add: cstep_def)
    moreover from Cons.IH[OF False] Cons.prems False
    have "(hd ps, last ps) \<in> (cstep g colour)\<^sup>*" by (simp add: successively_Cons)
    ultimately show ?thesis using False by (simp add: converse_rtrancl_into_rtrancl)
  qed
qed

lemma winning_iff_chain:
  assumes "wf_game g" "0 < m_size g" "m_size g < 256"
  shows "winning g colour = (\<exists>ps. winning_chain g colour ps)"
proof
  assume "winning g colour"
  then obtain p q where p: "inb g p" "on_start colour p" "colour_at g p = colour"
    and q: "(p, q) \<in> (cstep g colour)\<^sup>*" "on_end g colour q"
    unfolding winning_def goal_reach_def by blast
  from cstep_chain[OF q(1) p(1,3)] obtain ps where ps: "ps \<noteq> []" "hd ps = p" "last ps = q"
    "list_all (\<lambda>x. inb g x \<and> colour_at g x = colour) ps" "successively adjacent ps" by blast
  have "list_all (\<lambda>p. m_row p < m_size g \<and> m_col p < m_size g \<and>
                     isNodeColour g colour (m_row p) (m_col p) = Inr True) ps"
    using ps(4) isNodeColour_colour_at[OF assms(1)]
    by (auto simp: list_all_iff inb_def)
  then have "winning_chain g colour ps"
    unfolding winning_chain_def
    using ps p(2) q(2) wf_limits[OF assms]
    by (simp add: on_start_def on_end_def Position_ctor_def)
  then show "\<exists>ps. winning_chain g colour ps" ..
next
  assume "\<exists>ps. winning_chain g colour ps"
  then obtain ps where w: "winning_chain g colour ps" ..
  then have ne: "ps \<noteq> []" and sc: "successively adjacent ps"
    by (simp_all add: winning_chain_def)
  have la: "list_all (\<lambda>x. inb g x \<and> colour_at g x = colour) ps"
    using w isNodeColour_colour_at[OF assms(1)]
    by (auto simp: winning_chain_def list_all_iff inb_def)
  have hl: "hd ps \<in> set ps" "last ps \<in> set ps" using ne by simp_all
  with la have h: "inb g (hd ps)" "colour_at g (hd ps) = colour"
    and l: "inb g (last ps)" "colour_at g (last ps) = colour"
    by (simp_all add: list_all_iff)
  have st: "on_start colour (hd ps)" and en: "on_end g colour (last ps)"
    using w wf_limits[OF assms]
    by (simp_all add: winning_chain_def on_start_def on_end_def Position_ctor_def split: if_splits)
  show "winning g colour"
    unfolding winning_def goal_reach_def
    using chain_cstep[OF ne la sc] h l st en by blast
qed

lemma checkWin_result:
  assumes "wf_game g"
  shows "\<exists>ret. checkWin g player = Inr (ret, unmarked g)"
proof -
  from checkWin_loop_total[OF assms, of player 0 False]
  obtain b g1 where l: "checkWin_loop g player 0 False = Inr (b, g1)"
    and s: "unmarked g1 = unmarked g" by blast
  have "wf_game g1" using same_wf[OF s] assms by simp
  then have "clearAllTraverse g1 = Inr (unmarked g1)"
    by (simp add: clearAllTraverse_eq wf_rect)
  then show ?thesis using l s by (simp add: checkWin_def)
qed

lemma checkWin_winning:
  assumes "wf_game g" "2 \<le> m_size g" "m_size g < 256" "traverse_clear g"
  shows "checkWin g player = Inr (winning g (convertPlayer player), g)"
proof -
  have cl: "closed_marks g (convertPlayer player)"
    unfolding closed_marks_def using traverse_clear_marked[OF assms(1,4)] by blast
  from checkWin_loop_correct[OF assms(1-3) cl, of 0]
  obtain g1 where l: "checkWin_loop g player 0 False = Inr (winning g (convertPlayer player), g1)"
    by auto
  from checkWin_result[OF assms(1), of player] l
  show ?thesis using traverse_clear_unmarked[OF assms(4)]
    by (auto simp: checkWin_def split: sum.splits)
qed


section \<open>Moves and the result of \<^verbatim>\<open>checkWin\<close>\<close>

definition colour_node :: "HexGame \<Rightarrow> NodeColour \<Rightarrow> Position \<Rightarrow> HexGame" where
  "colour_node g colour p =
     (putNode g (m_row p) (m_col p) ((node_at g p)\<lparr>m_colour := colour\<rparr>))
       \<lparr>m_play_total := m_play_total g + 1\<rparr>"

lemma addPlay_eq:
  assumes "wf_game g" "inb g p"
  shows "addPlay g player (m_row p) (m_col p) =
     (if colour_at g p = WHITE then Inr (True, colour_node g (convertPlayer player) p)
      else Inr (False, g))"
  by (simp add: addPlay_def isNodeFree_def isNodeColour_def setNode_def wf_node_at(1)[OF assms]
      colour_at_def colour_node_def putNode_def)

lemma colour_node_fields:
  "m_size (colour_node g colour p) = m_size g" "m_limits (colour_node g colour p) = m_limits g"
  "m_play_total (colour_node g colour p) = m_play_total g + 1"
  "m_play_maximum (colour_node g colour p) = m_play_maximum g"
  by (simp_all add: colour_node_def putNode_def)

lemma colour_node_inb: "inb (colour_node g colour p) q = inb g q"
  by (simp add: inb_def colour_node_fields)

lemma colour_node_wf:
  assumes "wf_game g" "inb g p"
  shows "wf_game (colour_node g colour p)"
proof -
  have r: "m_row p < length (m_tree g)" and c: "m_col p < length (m_tree g ! m_row p)"
    using assms wf_game_length[OF assms(1)] wf_game_row_length[OF assms(1), of "m_row p"]
    by (simp_all add: inb_def)
  have "map (map blank) (m_tree (colour_node g colour p)) = map (map blank) (m_tree g)"
    unfolding colour_node_def putNode_def
    using map_map_update_id[OF r c, of blank "(node_at g p)\<lparr>m_colour := colour\<rparr>"]
    by (simp add: node_at_def blank_recolour)
  from wf_game_cong[OF colour_node_fields(1,2,4) this] assms(1) show ?thesis by simp
qed

lemma colour_node_node_at:
  assumes "wf_game g" "inb g p" "inb g q"
  shows "node_at (colour_node g colour p) q =
     (if q = p then (node_at g p)\<lparr>m_colour := colour\<rparr> else node_at g q)"
proof -
  have "node_at (colour_node g colour p) q =
        node_at (putNode g (m_row p) (m_col p) ((node_at g p)\<lparr>m_colour := colour\<rparr>)) q"
    by (simp add: colour_node_def node_at_def)
  then show ?thesis using putNode_node_at[OF assms] by simp
qed

lemma colour_node_colour_at:
  assumes "wf_game g" "inb g p" "inb g q"
  shows "colour_at (colour_node g colour p) q = (if q = p then colour else colour_at g q)"
  unfolding colour_at_def colour_node_node_at[OF assms] by simp

lemma Position_rc: "Position_ctor (m_row p) (m_col p) = (p::Position)"
  by (simp add: Position_ctor_def)

lemma playInterface_eq:
  assumes "wf_game g"
  shows "playInterface g player row col =
     (if row < m_size g \<and> col < m_size g \<and> colour_at g (Position_ctor row col) = WHITE
      then Inr (True, colour_node g (convertPlayer player) (Position_ctor row col))
      else Inr (False, g))"
proof (cases "row < m_size g \<and> col < m_size g")
  case True
  then have ib: "inb g (Position_ctor row col)" by (simp add: inb_def Position_ctor_def)
  from addPlay_eq[OF assms ib, of player] True show ?thesis
    by (simp add: playInterface_def checkInputRange_def checkRangeSingle_def Position_ctor_def)
next
  case False
  then show ?thesis
    by (auto simp: playInterface_def checkInputRange_def checkRangeSingle_def)
qed

text \<open>
  C3.  On a well-formed game \<^verbatim>\<open>playInterface\<close> returns true exactly when the row and the
  column are below the board size and the target node is free; then the target node
  holds the colour of the player and every other node is as before.  In every other
  case it returns false and the game is unchanged.
\<close>

theorem playInterface_iff:
  assumes "wf_game g"
  shows "\<exists>ok g'. playInterface g player row col = Inr (ok, g') \<and>
     (ok \<longleftrightarrow> row < m_size g \<and> col < m_size g \<and> isNodeFree g row col = Inr True) \<and>
     (ok \<longrightarrow> isNodeColour g' (convertPlayer player) row col = Inr True \<and>
             (\<forall>r c. r < m_size g \<and> c < m_size g \<and> (r, c) \<noteq> (row, col) \<longrightarrow>
                    getNode g' r c = getNode g r c)) \<and>
     (\<not> ok \<longrightarrow> g' = g)"
proof (cases "row < m_size g \<and> col < m_size g")
  case True
  let ?p = "Position_ctor row col"
  have rc: "m_row ?p = row" "m_col ?p = col" by (simp_all add: Position_ctor_def)
  have ib: "inb g ?p" using True by (simp add: inb_def Position_ctor_def)
  have free: "(isNodeFree g row col = Inr True) = (colour_at g ?p = WHITE)"
    using isNodeColour_colour_at[OF assms ib, of WHITE] by (simp add: isNodeFree_def rc)
  show ?thesis
  proof (cases "colour_at g ?p = WHITE")
    case w: True
    let ?g' = "colour_node g (convertPlayer player) ?p"
    have w': "wf_game ?g'" by (rule colour_node_wf[OF assms ib])
    have ib': "inb ?g' ?p" using ib by (simp add: colour_node_inb)
    have c: "isNodeColour ?g' (convertPlayer player) row col = Inr True"
      using isNodeColour_colour_at[OF w' ib', of "convertPlayer player"]
        colour_node_colour_at[OF assms ib ib] by (simp add: rc)
    have other: "\<forall>r c. r < m_size g \<and> c < m_size g \<and> (r, c) \<noteq> (row, col) \<longrightarrow>
                    getNode ?g' r c = getNode g r c"
    proof (intro allI impI)
      fix r c assume a: "r < m_size g \<and> c < m_size g \<and> (r, c) \<noteq> (row, col)"
      let ?q = "Position_ctor r c"
      have q: "inb g ?q" "?q \<noteq> ?p" "m_row ?q = r" "m_col ?q = c"
        using a by (auto simp: inb_def Position_ctor_def)
      have "getNode ?g' (m_row ?q) (m_col ?q) = Inr (node_at ?g' ?q)"
        using wf_node_at(1)[OF w', of ?q] q(1) by (simp add: colour_node_inb)
      moreover have "getNode g (m_row ?q) (m_col ?q) = Inr (node_at g ?q)"
        by (rule wf_node_at(1)[OF assms q(1)])
      ultimately show "getNode ?g' r c = getNode g r c"
        using colour_node_node_at[OF assms ib q(1)] q(2) by (simp add: q(3,4))
    qed
    have eq: "playInterface g player row col = Inr (True, ?g')"
      unfolding playInterface_eq[OF assms] using True w by simp
    show ?thesis
      by (rule exI[of _ True], rule exI[of _ ?g']) (use eq True free w c other in simp)
  next
    case False
    then have eq: "playInterface g player row col = Inr (False, g)"
      unfolding playInterface_eq[OF assms] by simp
    show ?thesis
      by (rule exI[of _ False], rule exI[of _ g]) (use eq False free in simp)
  qed
next
  case False
  then have eq: "playInterface g player row col = Inr (False, g)"
    unfolding playInterface_eq[OF assms] by auto
  show ?thesis
    by (rule exI[of _ False], rule exI[of _ g]) (use eq False in auto)
qed

theorem playInterface_iff_witness:
  "wf_game (HexGame_ctor 3 (\<lambda>row col. False)) \<and>
   (\<exists>ok g'. playInterface (HexGame_ctor 3 (\<lambda>row col. False)) FIRST 1 1 = Inr (ok, g') \<and>
     (ok \<longleftrightarrow> (1::nat) < m_size (HexGame_ctor 3 (\<lambda>row col. False)) \<and>
            isNodeFree (HexGame_ctor 3 (\<lambda>row col. False)) 1 1 = Inr True) \<and>
     (ok \<longrightarrow> isNodeColour g' (convertPlayer FIRST) 1 1 = Inr True) \<and>
     (\<not> ok \<longrightarrow> g' = HexGame_ctor 3 (\<lambda>row col. False)))"
proof -
  have w: "wf_game (HexGame_ctor 3 (\<lambda>row col. False))" by (rule wf_HexGame_ctor)
  from playInterface_iff[OF w, of FIRST 1 1] w show ?thesis by blast
qed

lemma traverse_clear_ctor: "traverse_clear (HexGame_ctor N (\<lambda>row col. False))"
  by (simp add: traverse_clear_def HexGame_ctor_def Graph_tree_def Node_ctor_def list_all_iff)

lemma traverse_clear_unmarked_game: "traverse_clear (unmarked g)"
  by (simp add: traverse_clear_def unmarked_def list_all_iff)

lemma size_ctor: "m_size (HexGame_ctor N junk) = N"
  by (simp add: HexGame_ctor_def)

text \<open>
  What \<^verbatim>\<open>checkWin\<close> computes when it starts from a board without traverse marks, the
  state in which every call of \<^verbatim>\<open>checkWin\<close> leaves the board: it returns true exactly when
  there is a chain of cells of the player's colour, consecutive cells adjacent by one
  of the six offsets, that starts on the starting border of the colour (column 0 for
  green, row 0 for red) and ends on its ending border (the last column for green, the
  last row for red).  The constructor does not establish this state: see the section
  on the uninitialised traverse mark.
\<close>

lemma checkWin_clear_iff_chain:
  assumes "wf_game g" "3 \<le> m_size g" "m_size g \<le> 11" "traverse_clear g"
  shows "checkWin g player = Inr ((\<exists>ps. winning_chain g (convertPlayer player) ps), g)"
proof -
  have "winning g (convertPlayer player) = (\<exists>ps. winning_chain g (convertPlayer player) ps)"
    using winning_iff_chain[OF assms(1)] assms(2,3) by simp
  moreover have "checkWin g player = Inr (winning g (convertPlayer player), g)"
    using checkWin_winning[OF assms(1) _ _ assms(4)] assms(2,3) by simp
  ultimately show ?thesis by simp
qed

text \<open>
  C9.  On a well-formed game \<^verbatim>\<open>checkWin\<close> returns, and the game it leaves is the game it
  was given with the traverse mark of every node cleared: no mark is set, and every
  node has the colour it had.
\<close>

theorem checkWin_clears_marks:
  assumes "wf_game g"
  shows "\<exists>ret g'. checkWin g player = Inr (ret, g') \<and>
     g' = g\<lparr>m_tree := map (map (\<lambda>n. n\<lparr>m_traversed := False\<rparr>)) (m_tree g)\<rparr> \<and>
     (\<forall>row col. row < m_size g \<and> col < m_size g \<longrightarrow>
        getTraverse g' row col = Inr False \<and>
        (\<forall>colour. isNodeColour g' colour row col = isNodeColour g colour row col))"
proof -
  from checkWin_result[OF assms, of player] obtain ret where
    c: "checkWin g player = Inr (ret, unmarked g)" by blast
  have w': "wf_game (unmarked g)" using assms by (simp add: wf_unmarked)
  have "\<forall>row col. row < m_size g \<and> col < m_size g \<longrightarrow>
        getTraverse (unmarked g) row col = Inr False \<and>
        (\<forall>colour. isNodeColour (unmarked g) colour row col = isNodeColour g colour row col)"
  proof (intro allI impI)
    fix row col assume a: "row < m_size g \<and> col < m_size g"
    let ?p = "Position_ctor row col"
    have rc: "m_row ?p = row" "m_col ?p = col" by (simp_all add: Position_ctor_def)
    have ib: "inb g ?p" using a by (simp add: inb_def rc)
    have ib': "inb (unmarked g) ?p" using ib by (simp add: inb_def unmarked_fields)
    have s: "unmarked (unmarked g) = unmarked g"
      by (rule traverse_clear_unmarked[OF traverse_clear_unmarked_game])
    have "\<not> marked (unmarked g) ?p"
      by (rule traverse_clear_marked[OF w' traverse_clear_unmarked_game ib'])
    then have t: "getTraverse (unmarked g) row col = Inr False"
      using wf_node_at(1)[OF w' ib'] by (simp add: getTraverse_def marked_def rc)
    have "colour_at (unmarked g) ?p = colour_at g ?p"
      by (rule same_colour_at[OF s assms ib])
    then have "\<forall>colour. isNodeColour (unmarked g) colour row col = isNodeColour g colour row col"
      using wf_node_at(1)[OF w' ib'] wf_node_at(1)[OF assms ib]
      by (simp add: isNodeColour_def colour_at_def rc)
    with t show "getTraverse (unmarked g) row col = Inr False \<and>
        (\<forall>colour. isNodeColour (unmarked g) colour row col = isNodeColour g colour row col)"
      by simp
  qed
  with c show ?thesis by (simp add: unmarked_def)
qed

theorem checkWin_clears_marks_witness:
  "wf_game (HexGame_ctor 3 (\<lambda>row col. True)) \<and>
   (\<exists>ret g'. checkWin (HexGame_ctor 3 (\<lambda>row col. True)) FIRST = Inr (ret, g') \<and>
      getTraverse g' 0 0 = Inr False \<and>
      isNodeColour g' WHITE 0 0 = isNodeColour (HexGame_ctor 3 (\<lambda>row col. True)) WHITE 0 0)"
proof -
  let ?g = "HexGame_ctor 3 (\<lambda>row col. True)"
  have w: "wf_game ?g" by (rule wf_HexGame_ctor)
  from checkWin_clears_marks[OF w, of FIRST] obtain ret g' where
    c: "checkWin ?g FIRST = Inr (ret, g')" and
    a: "\<forall>row col. row < m_size ?g \<and> col < m_size ?g \<longrightarrow>
        getTraverse g' row col = Inr False \<and>
        (\<forall>colour. isNodeColour g' colour row col = isNodeColour ?g colour row col)"
    by blast
  have "(0::nat) < m_size ?g \<and> (0::nat) < m_size ?g" by (simp add: size_ctor)
  from mp[OF spec[OF spec[OF a]] this] c w show ?thesis by blast
qed


section \<open>The Monte Carlo move selection\<close>

text \<open>
  \<^verbatim>\<open>ProbabilityValue\<close> is \<^verbatim>\<open>float\<close> in the source; the model computes with real numbers and
  leaves the rounding of the quotient out.  \<^verbatim>\<open>PlayCount\<close> is \<^verbatim>\<open>int\<close>; the counters stay far
  below its range.

  \<^verbatim>\<open>rand()\<close> is modelled by the list of the values it will return.  A loop that asks for
  a value when the list is used up ends with \<open>RandomExhausted\<close>: the list handed in was
  too short a prefix to see the loop finish.  C++ leaves open which of the two calls of
  \<^verbatim>\<open>rand()\<close> in the argument list of \<^verbatim>\<open>addPlay\<close> runs first; the model takes the first value
  for the row.

  \<^verbatim>\<open>std::sort\<close> is library code; \<^verbatim>\<open>computerPlay\<close> takes the sorting function as its first
  argument.  The threads of \<^verbatim>\<open>testPlay_threaded\<close> each work on a copy of the game, so the
  only thing they share is \<^verbatim>\<open>rand()\<close>: every thread is given the list of the values it
  draws.
\<close>

type_synonym ProbabilityValue = real
type_synonym PlayCount = int

record Probability = Position +
  m_value :: ProbabilityValue

definition Probability_ctor :: "ProbabilityValue \<Rightarrow> Coordinate \<Rightarrow> Coordinate \<Rightarrow> Probability" where
  "Probability_ctor v row col = \<lparr>m_row = row, m_col = col, m_value = v\<rparr>"

definition compareProbability :: "Probability \<Rightarrow> Probability \<Rightarrow> bool" where
  "compareProbability first second = (m_value first > m_value second)"

definition cn_NUM_OF_THREADS :: nat where
  "cn_NUM_OF_THREADS = 10"

definition cn_MAXIMUM_PLAY_LIMIT :: PlayCount where
  "cn_MAXIMUM_PLAY_LIMIT = 150"

definition next_player :: "Player \<Rightarrow> Player" where
  "next_player player = (if player = FIRST then SECOND else FIRST)"

text \<open>
  The inner \<^verbatim>\<open>for\<close> loop of \<^verbatim>\<open>testPlay\<close>, which fills the board: \<open>idx\<close> counts the
  successful placements up to \<^verbatim>\<open>m_play_maximum\<close>, and the player changes after each of them.
\<close>

fun fillBoard :: "nat list \<Rightarrow> HexGame \<Rightarrow> Player \<Rightarrow> PlayCount
    \<Rightarrow> error + (HexGame \<times> Player \<times> nat list)" where
  "fillBoard rs g player idx =
     (if idx < m_play_maximum g
      then (case rs of
              a # b # rs' \<Rightarrow>
                if m_size g = 0 then Inl DivisionByZero
                else (case addPlay g player (a mod m_size g) (b mod m_size g) of
                        Inl e \<Rightarrow> Inl e
                      | Inr (ok, g') \<Rightarrow>
                          if ok = True then fillBoard rs' g' (next_player player) (idx + 1)
                          else fillBoard rs' g' player idx)
            | _ \<Rightarrow> Inl RandomExhausted)
      else Inr (g, player, rs))"

declare fillBoard.simps [simp del]

text \<open>
  The \<^verbatim>\<open>while (count++ < limit)\<close> loop of \<^verbatim>\<open>testPlay\<close> (\<open>cnt\<close> is the source's \<^verbatim>\<open>count\<close>).
  The test compares the old value and increments: when the test fails the counter
  has been incremented once more, and that is the value the loop leaves behind.
\<close>

function playouts :: "nat list \<Rightarrow> HexGame \<Rightarrow> Node list list \<Rightarrow> PlayCount \<Rightarrow> PlayCount
    \<Rightarrow> Player \<Rightarrow> PlayCount \<Rightarrow> PlayCount
    \<Rightarrow> error + (PlayCount \<times> PlayCount \<times> HexGame \<times> nat list)" where
  "playouts rs g temp total_temp limit player cnt wins =
     (if cnt < limit
      then (case fillBoard rs g player (m_play_total g) of
              Inl e \<Rightarrow> Inl e
            | Inr (g1, player1, rs1) \<Rightarrow>
                (case checkWin g1 SECOND of
                   Inl e \<Rightarrow> Inl e
                 | Inr (won, g2) \<Rightarrow>
                     playouts rs1 (g2\<lparr>m_tree := temp, m_play_total := total_temp\<rparr>)
                       temp total_temp limit SECOND (cnt + 1)
                       (if won then wins + 1 else wins)))
      else Inr (wins, cnt + 1, g, rs))"
  by pat_completeness auto
termination
  by (relation "measure (\<lambda>(rs, g, temp, total_temp, limit, player, cnt, wins).
        nat (limit - cnt))") auto

declare playouts.simps [simp del]

definition play_limit :: "HexGame \<Rightarrow> PlayCount" where
  "play_limit g =
     (if int (m_size g) > 5 then cn_MAXIMUM_PLAY_LIMIT - 10 * (int (m_size g) - 6)
      else cn_MAXIMUM_PLAY_LIMIT)"

definition testPlay :: "nat list \<Rightarrow> HexGame \<Rightarrow> Coordinate \<Rightarrow> Coordinate
    \<Rightarrow> error + (Probability \<times> HexGame \<times> nat list)" where
  "testPlay rs g row_idx col_idx =
     (case addPlay g SECOND row_idx col_idx of
        Inl e \<Rightarrow> Inl e
      | Inr (ok, g0) \<Rightarrow>
          (case playouts rs g0 (m_tree g0) (m_play_total g0) (play_limit g0) SECOND 0 0 of
             Inl e \<Rightarrow> Inl e
           | Inr (wins, cnt, g', rs') \<Rightarrow>
               Inr (Probability_ctor (real_of_int wins / real_of_int cnt) row_idx col_idx,
                    g', rs')))"

definition averageResults :: "Probability list \<Rightarrow> error + Probability" where
  "averageResults xs =
     (case xs of
        [] \<Rightarrow> Inl OutOfRange
      | x # _ \<Rightarrow> Inr (Probability_ctor (fold (\<lambda>a total. total + m_value a) xs 0
                                          / real (length xs)) (m_row x) (m_col x)))"

text \<open>
  \<^verbatim>\<open>testPlay_threaded\<close>: every thread runs \<^verbatim>\<open>testPlay\<close> on its own copy of the game and the
  results are averaged.  The game of the caller is not changed.
\<close>

fun thread_results :: "nat list list \<Rightarrow> HexGame \<Rightarrow> Coordinate \<Rightarrow> Coordinate
    \<Rightarrow> error + Probability list" where
  "thread_results [] g row_idx col_idx = Inr []"
| "thread_results (rs # rss) g row_idx col_idx =
     (case testPlay rs g row_idx col_idx of
        Inl e \<Rightarrow> Inl e
      | Inr (p, g', rs') \<Rightarrow>
          (case thread_results rss g row_idx col_idx of
             Inl e \<Rightarrow> Inl e
           | Inr ps \<Rightarrow> Inr (p # ps)))"

definition testPlay_threaded :: "nat list list \<Rightarrow> HexGame \<Rightarrow> Coordinate \<Rightarrow> Coordinate
    \<Rightarrow> error + Probability" where
  "testPlay_threaded rss g row_idx col_idx =
     (if length rss < cn_NUM_OF_THREADS then Inl RandomExhausted
      else (case thread_results (take cn_NUM_OF_THREADS rss) g row_idx col_idx of
              Inl e \<Rightarrow> Inl e
            | Inr results \<Rightarrow> averageResults results))"

text \<open>
  The two loops of \<^verbatim>\<open>computerPlay\<close> over the columns and the rows, collecting in
  \<^verbatim>\<open>outputs\<close> one probability for every free node.
\<close>

function computerPlay_cols :: "nat list list list \<Rightarrow> HexGame \<Rightarrow> Node list list \<Rightarrow> PlayCount
    \<Rightarrow> Coordinate \<Rightarrow> Coordinate \<Rightarrow> Probability list
    \<Rightarrow> error + (HexGame \<times> Probability list \<times> nat list list list)" where
  "computerPlay_cols rnd g temp_graph total_temp row_idx col_idx outputs =
     (if col_idx < m_size g
      then (case isNodeFree g row_idx col_idx of
              Inl e \<Rightarrow> Inl e
            | Inr free \<Rightarrow>
                if free
                then (case rnd of
                        [] \<Rightarrow> Inl RandomExhausted
                      | rss # rnd' \<Rightarrow>
                          (case testPlay_threaded rss g row_idx col_idx of
                             Inl e \<Rightarrow> Inl e
                           | Inr p \<Rightarrow>
                               computerPlay_cols rnd'
                                 (g\<lparr>m_tree := temp_graph, m_play_total := total_temp\<rparr>)
                                 temp_graph total_temp row_idx (Suc col_idx) (outputs @ [p])))
                else computerPlay_cols rnd g temp_graph total_temp row_idx (Suc col_idx) outputs)
      else Inr (g, outputs, rnd))"
  by pat_completeness auto
termination
  by (relation "measure (\<lambda>(rnd, g, temp_graph, total_temp, row_idx, col_idx, outputs).
        m_size g - col_idx)") auto

declare computerPlay_cols.simps [simp del]

lemma computerPlay_cols_size:
  "computerPlay_cols rnd g temp_graph total_temp row_idx col_idx outputs = Inr (g', out', rnd')
   \<Longrightarrow> m_size g' = m_size g"
proof (induction rnd g temp_graph total_temp row_idx col_idx outputs
    rule: computerPlay_cols.induct)
  case (1 rnd g temp_graph total_temp row_idx col_idx outputs)
  show ?case
  proof (cases "col_idx < m_size g")
    case True
    from "1.prems" True obtain free where f: "isNodeFree g row_idx col_idx = Inr free"
      by (subst (asm) computerPlay_cols.simps) (auto split: sum.splits)
    show ?thesis
    proof (cases free)
      case t: True
      from "1.prems" True f t obtain rss rnd2 p where r: "rnd = rss # rnd2"
        and tp: "testPlay_threaded rss g row_idx col_idx = Inr p"
        and rec: "computerPlay_cols rnd2 (g\<lparr>m_tree := temp_graph, m_play_total := total_temp\<rparr>)
                    temp_graph total_temp row_idx (Suc col_idx) (outputs @ [p]) = Inr (g', out', rnd')"
        by (subst (asm) computerPlay_cols.simps) (auto split: sum.splits list.splits)
      from "1.IH"(1)[OF True f t r tp rec] show ?thesis by simp
    next
      case False
      from "1.prems" True f False have
        "computerPlay_cols rnd g temp_graph total_temp row_idx (Suc col_idx) outputs = Inr (g', out', rnd')"
        by (subst (asm) computerPlay_cols.simps) simp
      from "1.IH"(2)[OF True f False this] show ?thesis .
    qed
  next
    case False
    with "1.prems" show ?thesis by (subst (asm) computerPlay_cols.simps) simp
  qed
qed

function computerPlay_rows :: "nat list list list \<Rightarrow> HexGame \<Rightarrow> Node list list \<Rightarrow> PlayCount
    \<Rightarrow> Coordinate \<Rightarrow> Probability list
    \<Rightarrow> error + (HexGame \<times> Probability list \<times> nat list list list)" where
  "computerPlay_rows rnd g temp_graph total_temp row_idx outputs =
     (if row_idx < m_size g
      then (case computerPlay_cols rnd g temp_graph total_temp row_idx 0 outputs of
              Inl e \<Rightarrow> Inl e
            | Inr (g', outputs', rnd') \<Rightarrow>
                computerPlay_rows rnd' g' temp_graph total_temp (Suc row_idx) outputs')
      else Inr (g, outputs, rnd))"
  by pat_completeness auto
termination
  by (relation "measure (\<lambda>(rnd, g, temp_graph, total_temp, row_idx, outputs).
        m_size g - row_idx)") (auto simp: computerPlay_cols_size)

declare computerPlay_rows.simps [simp del]

text \<open>
  \<^verbatim>\<open>computerPlay\<close>: the outputs are sorted and the move of \<^verbatim>\<open>outputs[0]\<close> is added for the
  second player.  On an empty vector \<^verbatim>\<open>outputs[0]\<close> is undefined.
\<close>

definition computerPlay :: "(Probability list \<Rightarrow> Probability list) \<Rightarrow> nat list list list
    \<Rightarrow> HexGame \<Rightarrow> error + HexGame" where
  "computerPlay std_sort rnd g =
     (case computerPlay_rows rnd g (m_tree g) (m_play_total g) 0 [] of
        Inl e \<Rightarrow> Inl e
      | Inr (g', outputs, rnd') \<Rightarrow>
          (case std_sort outputs of
             [] \<Rightarrow> Inl OutOfRange
           | best # _ \<Rightarrow>
               (case addPlay g' SECOND (m_row best) (m_col best) of
                  Inl e \<Rightarrow> Inl e
                | Inr (ok, g'') \<Rightarrow> Inr g'')))"

section \<open>Properties of the playouts and of the move selection\<close>

definition coloured_row :: "Node list \<Rightarrow> nat" where
  "coloured_row ns = sum_list (map (\<lambda>n. if m_colour n = WHITE then 0 else 1) ns)"

definition coloured :: "'a Graph_scheme \<Rightarrow> nat" where
  "coloured g = sum_list (map coloured_row (m_tree g))"

definition counted :: "HexGame \<Rightarrow> bool" where
  "counted g = (m_play_total g = int (coloured g) \<and>
                m_play_maximum g = int (m_size g) * int (m_size g))"

lemma sum_list_map_update_more:
  fixes f :: "'a \<Rightarrow> nat"
  shows "r < length xs \<Longrightarrow> f y = Suc (f (xs ! r)) \<Longrightarrow>
    sum_list (map f (xs[r := y])) = Suc (sum_list (map f xs))"
  by (induction xs arbitrary: r) (auto simp: nth_Cons' split: nat.splits)

lemma coloured_row_update:
  "c < length ns \<Longrightarrow> m_colour (ns ! c) = WHITE \<Longrightarrow> colour \<noteq> WHITE \<Longrightarrow>
   coloured_row (ns[c := (ns ! c)\<lparr>m_colour := colour\<rparr>]) = Suc (coloured_row ns)"
  unfolding coloured_row_def
  by (rule sum_list_map_update_more) simp_all

lemma coloured_colour_node:
  assumes "wf_game g" "inb g p" "colour_at g p = WHITE" "colour \<noteq> WHITE"
  shows "coloured (colour_node g colour p) = Suc (coloured g)"
proof -
  have r: "m_row p < length (m_tree g)" and c: "m_col p < length (m_tree g ! m_row p)"
    using assms wf_game_length[OF assms(1)] wf_game_row_length[OF assms(1), of "m_row p"]
    by (simp_all add: inb_def)
  have "coloured_row ((m_tree g ! m_row p)[m_col p := (node_at g p)\<lparr>m_colour := colour\<rparr>])
        = Suc (coloured_row (m_tree g ! m_row p))"
    using coloured_row_update[OF c _ assms(4)] assms(3) by (simp add: colour_at_def node_at_def)
  from sum_list_map_update_more[OF r this]
  show ?thesis by (simp add: coloured_def colour_node_def putNode_def)
qed

lemma convertPlayer_not_WHITE: "convertPlayer player \<noteq> WHITE"
  by (simp add: convertPlayer_def)

lemma counted_colour_node:
  assumes "wf_game g" "inb g p" "colour_at g p = WHITE" "counted g"
  shows "counted (colour_node g (convertPlayer player) p)"
  using assms(4) coloured_colour_node[OF assms(1-3) convertPlayer_not_WHITE, of player]
  by (simp add: counted_def colour_node_fields)

lemma addPlay_out_of_range:
  "\<not> (row < m_size g \<and> col < m_size g) \<Longrightarrow> addPlay g player row col = Inl AssertionFailed"
  by (auto simp: addPlay_def isNodeFree_def isNodeColour_def getNode_def)

lemma addPlay_cases:
  assumes "wf_game g" "addPlay g player row col = Inr (ok, g')"
  obtains (placed) "row < m_size g" "col < m_size g" "colour_at g (Position_ctor row col) = WHITE"
      "ok" "g' = colour_node g (convertPlayer player) (Position_ctor row col)"
    | (refused) "row < m_size g" "col < m_size g" "colour_at g (Position_ctor row col) \<noteq> WHITE"
      "\<not> ok" "g' = g"
proof -
  have b: "row < m_size g \<and> col < m_size g"
    using assms(2) addPlay_out_of_range[of row g col player] by auto
  let ?p = "Position_ctor row col"
  have ib: "inb g ?p" using b by (simp add: inb_def Position_ctor_def)
  have rc: "m_row ?p = row" "m_col ?p = col" by (simp_all add: Position_ctor_def)
  from addPlay_eq[OF assms(1) ib, of player, unfolded rc] assms(2)
  have "(if colour_at g ?p = WHITE then Inr (True, colour_node g (convertPlayer player) ?p)
      else Inr (False, g)) = Inr (ok, g')" by (simp split: if_splits)
  then show thesis using placed refused b by (auto split: if_splits)
qed

lemma addPlay_keeps:
  assumes "wf_game g" "addPlay g player row col = Inr (ok, g')"
  shows "wf_game g'" "counted g \<Longrightarrow> counted g'" "m_size g' = m_size g"
    "m_limits g' = m_limits g" "m_play_maximum g' = m_play_maximum g"
    "m_play_total g' = m_play_total g + (if ok then 1 else 0)"
proof -
  let ?p = "Position_ctor row col"
  have "wf_game g' \<and> (counted g \<longrightarrow> counted g') \<and> m_size g' = m_size g \<and>
    m_limits g' = m_limits g \<and> m_play_maximum g' = m_play_maximum g \<and>
    m_play_total g' = m_play_total g + (if ok then 1 else 0)"
    using assms
  proof (cases rule: addPlay_cases)
    case placed
    then have ib: "inb g ?p" by (simp add: inb_def Position_ctor_def)
    show ?thesis
      using placed colour_node_wf[OF assms(1) ib] counted_colour_node[OF assms(1) ib placed(3)]
      by (simp add: colour_node_fields)
  next
    case refused
    then show ?thesis using assms(1) by simp
  qed
  then show "wf_game g'" "counted g \<Longrightarrow> counted g'" "m_size g' = m_size g"
    "m_limits g' = m_limits g" "m_play_maximum g' = m_play_maximum g"
    "m_play_total g' = m_play_total g + (if ok then 1 else 0)"
    by simp_all
qed

lemma fillBoard_step:
  "fillBoard (a # b # rs) g player idx =
     (if idx < m_play_maximum g
      then if m_size g = 0 then Inl DivisionByZero
           else (case addPlay g player (a mod m_size g) (b mod m_size g) of
                   Inl e \<Rightarrow> Inl e
                 | Inr (ok, g') \<Rightarrow>
                     if ok then fillBoard rs g' (next_player player) (idx + 1)
                     else fillBoard rs g' player idx)
      else Inr (g, player, a # b # rs))"
  by (subst fillBoard.simps) (simp split: sum.splits)

lemma fillBoard_done:
  "\<not> idx < m_play_maximum g \<Longrightarrow> fillBoard rs g player idx = Inr (g, player, rs)"
  by (subst fillBoard.simps) simp

lemma fillBoard_keeps:
  assumes "fillBoard rs g player idx = Inr (g', player', rs')" "wf_game g"
  shows "wf_game g' \<and> (counted g \<longrightarrow> counted g') \<and> m_size g' = m_size g \<and>
    m_limits g' = m_limits g \<and> m_play_maximum g' = m_play_maximum g \<and>
    m_play_total g' =
      m_play_total g + (if idx < m_play_maximum g then m_play_maximum g - idx else 0)"
  using assms
proof (induction rs g player idx rule: fillBoard.induct)
  case (1 rs g player idx)
  show ?case
  proof (cases "idx < m_play_maximum g")
    case False
    with "1.prems" show ?thesis by (simp add: fillBoard_done)
  next
    case True
    with "1.prems"(1) obtain a b rs2 where rs: "rs = a # b # rs2"
      by (subst (asm) fillBoard.simps) (auto split: list.splits)
    from "1.prems"(1) True have nz: "m_size g \<noteq> 0"
      unfolding rs fillBoard_step by (auto split: if_splits)
    from "1.prems"(1) True nz obtain ok g1 where
      ap: "addPlay g player (a mod m_size g) (b mod m_size g) = Inr (ok, g1)"
      unfolding rs fillBoard_step by (auto split: sum.splits)
    note k = addPlay_keeps[OF "1.prems"(2) ap]
    show ?thesis
    proof (cases ok)
      case t: True
      then have rec: "fillBoard rs2 g1 (next_player player) (idx + 1) = Inr (g', player', rs')"
        using "1.prems"(1) True nz ap unfolding rs fillBoard_step by simp
      have rs': "rs = a # (b # rs2)" "b # rs2 = b # rs2" using rs by simp_all
      from "1.IH"(1)[OF True rs' nz ap refl t[THEN eqTrueI] rec k(1)]
      have "wf_game g' \<and> (counted g1 \<longrightarrow> counted g') \<and> m_size g' = m_size g1 \<and>
        m_limits g' = m_limits g1 \<and> m_play_maximum g' = m_play_maximum g1 \<and>
        m_play_total g' = m_play_total g1 +
          (if idx + 1 < m_play_maximum g1 then m_play_maximum g1 - (idx + 1) else 0)"
        by simp
      then show ?thesis using k t True by auto
    next
      case f: False
      then have rec: "fillBoard rs2 g1 player idx = Inr (g', player', rs')"
        using "1.prems"(1) True nz ap unfolding rs fillBoard_step by simp
      have rs': "rs = a # (b # rs2)" "b # rs2 = b # rs2" using rs by simp_all
      have nt: "ok \<noteq> True" using f by simp
      from "1.IH"(2)[OF True rs' nz ap refl nt rec k(1)]
      have "wf_game g' \<and> (counted g1 \<longrightarrow> counted g') \<and> m_size g' = m_size g1 \<and>
        m_limits g' = m_limits g1 \<and> m_play_maximum g' = m_play_maximum g1 \<and>
        m_play_total g' = m_play_total g1 +
          (if idx < m_play_maximum g1 then m_play_maximum g1 - idx else 0)"
        by simp
      then show ?thesis using k f True by auto
    qed
  qed
qed

lemma playouts_step:
  "cnt < limit \<Longrightarrow> fillBoard rs g player (m_play_total g) = Inr (g1, player1, rs1) \<Longrightarrow>
   checkWin g1 SECOND = Inr (won, g2) \<Longrightarrow>
   playouts rs g temp total_temp limit player cnt wins =
     playouts rs1 (g2\<lparr>m_tree := temp, m_play_total := total_temp\<rparr>) temp total_temp limit
       SECOND (cnt + 1) (if won then wins + 1 else wins)"
  by (subst playouts.simps) simp

lemma playouts_done:
  "\<not> cnt < limit \<Longrightarrow>
   playouts rs g temp total_temp limit player cnt wins = Inr (wins, cnt + 1, g, rs)"
  by (subst playouts.simps) simp

lemma playout_restores:
  assumes "wf_game g" "fillBoard rs g player (m_play_total g) = Inr (g1, player1, rs1)"
    "checkWin g1 SECOND = Inr (won, g2)"
  shows "g2\<lparr>m_tree := m_tree g, m_play_total := m_play_total g\<rparr> = g"
proof -
  note k = fillBoard_keeps[OF assms(2,1)]
  from checkWin_result[OF conjunct1[OF k], of SECOND] assms(3)
  have g2: "g2 = unmarked g1" by simp
  show ?thesis
    using k by (intro HexGame.equality) (simp_all add: g2 unmarked_fields)
qed

lemma playouts_result:
  assumes "playouts rs g temp total_temp limit player cnt wins = Inr (w, c, g', rs')"
    "wf_game g" "temp = m_tree g" "total_temp = m_play_total g"
  shows "g' = g \<and> c = (if cnt < limit then limit + 1 else cnt + 1) \<and> wins \<le> w \<and>
         w \<le> wins + (if cnt < limit then limit - cnt else 0)"
  using assms
proof (induction rs g temp total_temp limit player cnt wins rule: playouts.induct)
  case (1 rs g temp total_temp limit player cnt wins)
  show ?case
  proof (cases "cnt < limit")
    case False
    with "1.prems"(1) show ?thesis by (simp add: playouts_done)
  next
    case True
    with "1.prems"(1) obtain g1 player1 rs1 where
      fb: "fillBoard rs g player (m_play_total g) = Inr (g1, player1, rs1)"
      by (subst (asm) playouts.simps) (auto split: sum.splits)
    with "1.prems"(1) True obtain won g2 where cw: "checkWin g1 SECOND = Inr (won, g2)"
      by (subst (asm) playouts.simps) (auto split: sum.splits)
    have restored: "g2\<lparr>m_tree := temp, m_play_total := total_temp\<rparr> = g"
      using playout_restores[OF "1.prems"(2) fb cw] "1.prems"(3,4) by simp
    have rec: "playouts rs1 g temp total_temp limit SECOND (cnt + 1)
                 (if won then wins + 1 else wins) = Inr (w, c, g', rs')"
      using "1.prems"(1) unfolding playouts_step[OF True fb cw] restored .
    from "1.IH"[OF True fb refl refl cw refl, unfolded restored, OF rec "1.prems"(2,3,4)]
    show ?thesis using True by (auto split: if_splits)
  qed
qed

lemma play_limit_bounds:
  "3 \<le> m_size g \<Longrightarrow> m_size g \<le> 11 \<Longrightarrow> 100 \<le> play_limit g \<and> play_limit g \<le> 150"
  by (simp add: play_limit_def cn_MAXIMUM_PLAY_LIMIT_def)

lemma testPlay_result:
  assumes "wf_game g" "testPlay rs g row col = Inr (p, g', rs')"
  shows "\<exists>ok wins cnt. addPlay g SECOND row col = Inr (ok, g') \<and>
     playouts rs g' (m_tree g') (m_play_total g') (play_limit g') SECOND 0 0
        = Inr (wins, cnt, g', rs') \<and>
     p = Probability_ctor (real_of_int wins / real_of_int cnt) row col \<and>
     cnt = (if 0 < play_limit g' then play_limit g' + 1 else 1) \<and>
     0 \<le> wins \<and> wins \<le> (if 0 < play_limit g' then play_limit g' else 0)"
proof -
  from assms(2) obtain ok g0 where ap: "addPlay g SECOND row col = Inr (ok, g0)"
    by (auto simp: testPlay_def split: sum.splits)
  with assms(2) obtain wins cnt g1 where
    po: "playouts rs g0 (m_tree g0) (m_play_total g0) (play_limit g0) SECOND 0 0
           = Inr (wins, cnt, g1, rs')"
    and p: "p = Probability_ctor (real_of_int wins / real_of_int cnt) row col" and g': "g' = g1"
    by (auto simp: testPlay_def split: sum.splits)
  note r = playouts_result[OF po addPlay_keeps(1)[OF assms(1) ap] refl refl]
  show ?thesis
    using ap po p g' r by (intro exI[of _ ok] exI[of _ wins] exI[of _ cnt]) auto
qed

lemma fillBoard_append:
  "fillBoard xs g player idx = Inr (g1, player1, r) \<Longrightarrow>
   fillBoard (xs @ ys) g player idx = Inr (g1, player1, r @ ys)"
proof (induction xs g player idx rule: fillBoard.induct)
  case (1 rs g player idx)
  show ?case
  proof (cases "idx < m_play_maximum g")
    case False
    with "1.prems" show ?thesis by (simp add: fillBoard_done)
  next
    case True
    with "1.prems"(1) obtain a b rs2 where rs: "rs = a # b # rs2"
      by (subst (asm) fillBoard.simps) (auto split: list.splits)
    from "1.prems"(1) True have nz: "m_size g \<noteq> 0"
      unfolding rs fillBoard_step by (auto split: if_splits)
    from "1.prems"(1) True nz obtain ok g2 where
      ap: "addPlay g player (a mod m_size g) (b mod m_size g) = Inr (ok, g2)"
      unfolding rs fillBoard_step by (auto split: sum.splits)
    have rs': "rs = a # (b # rs2)" "b # rs2 = b # rs2" using rs by simp_all
    show ?thesis
    proof (cases ok)
      case t: True
      then have rec: "fillBoard rs2 g2 (next_player player) (idx + 1) = Inr (g1, player1, r)"
        using "1.prems"(1) True nz ap unfolding rs fillBoard_step by simp
      from "1.IH"(1)[OF True rs' nz ap refl t[THEN eqTrueI] rec]
      show ?thesis using True nz ap t by (simp add: rs fillBoard_step)
    next
      case f: False
      then have rec: "fillBoard rs2 g2 player idx = Inr (g1, player1, r)"
        using "1.prems"(1) True nz ap unfolding rs fillBoard_step by simp
      have nt: "ok \<noteq> True" using f by simp
      from "1.IH"(2)[OF True rs' nz ap refl nt rec]
      show ?thesis using True nz ap f by (simp add: rs fillBoard_step)
    qed
  qed
qed

lemma playouts_repeat:
  assumes "wf_game g" "fillBoard xs g SECOND (m_play_total g) = Inr (g1, player1, [])"
    "checkWin g1 SECOND = Inr (won, g2)"
  shows "playouts (concat (replicate n xs) @ ys) g (m_tree g) (m_play_total g)
           (cnt + int n) SECOND cnt wins
         = Inr (wins + (if won then int n else 0), cnt + int n + 1, g, ys)"
proof (induction n arbitrary: cnt wins)
  case 0
  then show ?case by (simp add: playouts_done)
next
  case (Suc n)
  have lt: "cnt < cnt + int (Suc n)" by simp
  have fb: "fillBoard (concat (replicate (Suc n) xs) @ ys) g SECOND (m_play_total g)
            = Inr (g1, player1, concat (replicate n xs) @ ys)"
    using fillBoard_append[OF assms(2), of "concat (replicate n xs) @ ys"] by simp
  have restored: "g2\<lparr>m_tree := m_tree g, m_play_total := m_play_total g\<rparr> = g"
    by (rule playout_restores[OF assms(1,2,3)])
  have e: "cnt + int (Suc n) = (cnt + 1) + int n" by simp
  show ?case
    unfolding playouts_step[OF lt fb assms(3)] restored
    unfolding e Suc.IH[of "cnt + 1"]
    by simp
qed

fun board_after :: "HexGame \<Rightarrow> (Player \<times> Coordinate \<times> Coordinate) list \<Rightarrow> HexGame" where
  "board_after g [] = g"
| "board_after g ((player, row, col) # moves) =
     (case playInterface g player row col of
        Inl e \<Rightarrow> g
      | Inr (ok, g') \<Rightarrow> board_after g' moves)"

definition board_7 :: HexGame where
  "board_7 = board_after (HexGame_ctor 3 (\<lambda>row col. False))
     [(FIRST, 0, 1), (SECOND, 0, 0), (FIRST, 0, 2), (SECOND, 1, 2), (FIRST, 1, 1),
      (SECOND, 2, 1), (FIRST, 2, 2)]"

definition board_8 :: HexGame where
  "board_8 = colour_node board_7 RED (Position_ctor 1 0)"

definition board_8' :: HexGame where
  "board_8' = colour_node board_7 RED (Position_ctor 2 0)"

definition board_9 :: HexGame where
  "board_9 = colour_node board_8 RED (Position_ctor 2 0)"

lemma list_all_update: "list_all P xs \<Longrightarrow> P y \<Longrightarrow> list_all P (xs[i := y])"
  by (induction xs arbitrary: i) (auto split: nat.splits)

lemma traverse_clear_colour_node:
  assumes "wf_game g" "inb g p" "traverse_clear g"
  shows "traverse_clear (colour_node g colour p)"
proof -
  let ?Q = "\<lambda>n. \<not> m_traversed n"
  have r: "m_row p < length (m_tree g)" and c: "m_col p < length (m_tree g ! m_row p)"
    using assms wf_game_length[OF assms(1)] wf_game_row_length[OF assms(1), of "m_row p"]
    by (simp_all add: inb_def)
  have row: "list_all ?Q (m_tree g ! m_row p)"
    using assms(3) r by (simp add: traverse_clear_def list_all_length)
  then have "?Q (node_at g p)" using c by (simp add: node_at_def list_all_length)
  then have "?Q ((node_at g p)\<lparr>m_colour := colour\<rparr>)" by simp
  from list_all_update[OF row, of "(node_at g p)\<lparr>m_colour := colour\<rparr>", OF this]
  have "list_all ?Q ((m_tree g ! m_row p)[m_col p := (node_at g p)\<lparr>m_colour := colour\<rparr>])" .
  from list_all_update[OF assms(3)[unfolded traverse_clear_def], of _ "m_row p", OF this]
  show ?thesis by (simp add: traverse_clear_def colour_node_def putNode_def)
qed

lemma playInterface_keeps:
  assumes "wf_game g" "playInterface g player row col = Inr (ok, g')"
  shows "wf_game g'" "counted g \<Longrightarrow> counted g'" "m_size g' = m_size g"
    "traverse_clear g \<Longrightarrow> traverse_clear g'"
proof -
  have "wf_game g' \<and> (counted g \<longrightarrow> counted g') \<and> m_size g' = m_size g \<and>
        (traverse_clear g \<longrightarrow> traverse_clear g')"
  proof (cases "checkInputRange g row col")
    case True
    then have ap: "addPlay g player row col = Inr (ok, g')"
      using assms(2) by (simp add: playInterface_def)
    have tc: "traverse_clear g \<longrightarrow> traverse_clear g'"
      using assms(1) ap
    proof (cases rule: addPlay_cases)
      case placed
      then have "inb g (Position_ctor row col)" by (simp add: inb_def Position_ctor_def)
      from traverse_clear_colour_node[OF assms(1) this] placed(5) show ?thesis by simp
    next
      case refused
      then show ?thesis by simp
    qed
    with addPlay_keeps[OF assms(1) ap] show ?thesis by simp
  next
    case False
    with assms show ?thesis by (simp add: playInterface_def)
  qed
  then show "wf_game g'" "counted g \<Longrightarrow> counted g'" "m_size g' = m_size g"
    "traverse_clear g \<Longrightarrow> traverse_clear g'" by simp_all
qed

lemma board_after_keeps:
  "wf_game g \<Longrightarrow> wf_game (board_after g moves) \<and> m_size (board_after g moves) = m_size g \<and>
     (counted g \<longrightarrow> counted (board_after g moves)) \<and>
     (traverse_clear g \<longrightarrow> traverse_clear (board_after g moves))"
proof (induction g moves rule: board_after.induct)
  case (1 g)
  then show ?case by simp
next
  case (2 g player row col moves)
  show ?case
  proof (cases "playInterface g player row col")
    case (Inl e)
    then show ?thesis using "2.prems" by simp
  next
    case (Inr x)
    obtain ok g' where x: "x = (ok, g')" by (cases x)
    note k = playInterface_keeps[OF "2.prems" Inr[unfolded x]]
    from "2.IH"[OF Inr x[symmetric] k(1)] k show ?thesis by (simp add: Inr x)
  qed
qed

lemma counted_ctor: "counted (HexGame_ctor N junk)"
proof -
  have "\<And>r. coloured_row (map (\<lambda>c. Node_ctor r c N (junk r c)) [0..<N]) = 0"
    by (simp add: coloured_row_def Node_ctor_def comp_def)
  then show ?thesis
    by (simp add: counted_def coloured_def HexGame_ctor_def Graph_tree_def comp_def)
qed

lemma wf_board_7: "wf_game board_7" "m_size board_7 = 3" "counted board_7" "traverse_clear board_7"
proof -
  note k = board_after_keeps[OF wf_HexGame_ctor, of 3 "\<lambda>row col. False"
      "[(FIRST, 0, 1), (SECOND, 0, 0), (FIRST, 0, 2), (SECOND, 1, 2), (FIRST, 1, 1),
      (SECOND, 2, 1), (FIRST, 2, 2)]", folded board_7_def]
  show "wf_game board_7" "m_size board_7 = 3" "counted board_7" "traverse_clear board_7"
    using k counted_ctor[of 3 "\<lambda>row col. False"] traverse_clear_ctor[of 3]
    by (simp_all only: size_ctor)
qed

lemma board_7_colours:
  "map (map m_colour) (m_tree board_7) = [[RED, GREEN, GREEN], [WHITE, GREEN, RED], [WHITE, RED, GREEN]]"
  by code_simp

lemma board_7_total: "m_play_total board_7 = 7"
  by code_simp

lemma board_9_wins: "(case checkWin board_9 SECOND of Inl e \<Rightarrow> False | Inr (won, g) \<Rightarrow> won)"
  by code_simp

definition free_cells :: "HexGame \<Rightarrow> Position list" where
  "free_cells g =
     concat (map (\<lambda>row. map (Position_ctor row)
                             (filter (\<lambda>col. colour_at g (Position_ctor row col) = WHITE)
                                     [0..<m_size g]))
                 [0..<m_size g])"

fun collect :: "nat list list list \<Rightarrow> HexGame \<Rightarrow> Position list \<Rightarrow> Probability list
    \<Rightarrow> error + (HexGame \<times> Probability list \<times> nat list list list)" where
  "collect rnd g [] outputs = Inr (g, outputs, rnd)"
| "collect rnd g (p # ps) outputs =
     (case rnd of
        [] \<Rightarrow> Inl RandomExhausted
      | rss # rnd' \<Rightarrow>
          (case testPlay_threaded rss g (m_row p) (m_col p) of
             Inl e \<Rightarrow> Inl e
           | Inr q \<Rightarrow> collect rnd' g ps (outputs @ [q])))"

lemma collect_append:
  "collect rnd g (ps @ qs) outputs =
     (case collect rnd g ps outputs of
        Inl e \<Rightarrow> Inl e
      | Inr (g', outputs', rnd') \<Rightarrow> collect rnd' g qs outputs')"
  by (induction ps arbitrary: rnd outputs) (auto split: list.splits sum.splits)

lemma collect_game: "collect rnd g ps outputs = Inr (g', outputs', rnd') \<Longrightarrow> g' = g"
  by (induction ps arbitrary: rnd outputs) (auto split: list.splits sum.splits)

lemma Position_ctor_sel: "m_row (Position_ctor r c) = r" "m_col (Position_ctor r c) = c"
  by (simp_all add: Position_ctor_def)

lemma restore_self: "g\<lparr>m_tree := m_tree g, m_play_total := m_play_total g\<rparr> = (g::HexGame)"
  by simp

lemma isNodeFree_wf:
  assumes "wf_game g" "row < m_size g" "col < m_size g"
  shows "isNodeFree g row col = Inr (colour_at g (Position_ctor row col) = WHITE)"
proof -
  let ?p = "Position_ctor row col"
  have ib: "inb g ?p" using assms(2,3) by (simp add: inb_def Position_ctor_def)
  from wf_node_at(1)[OF assms(1) ib] show ?thesis
    by (simp add: isNodeFree_def isNodeColour_def colour_at_def Position_ctor_def)
qed

lemma computerPlay_cols_collect:
  assumes "wf_game g" "row < m_size g"
  shows "computerPlay_cols rnd g (m_tree g) (m_play_total g) row col outputs =
     collect rnd g (map (Position_ctor row)
                      (filter (\<lambda>c. colour_at g (Position_ctor row c) = WHITE) [col..<m_size g]))
       outputs"
proof (induction "m_size g - col" arbitrary: col rnd outputs)
  case 0
  then show ?case by (subst computerPlay_cols.simps) simp
next
  case (Suc k)
  then have c: "col < m_size g" by simp
  have k: "k = m_size g - Suc col" using Suc.hyps(2) by simp
  note IH = Suc.hyps(1)[OF k]
  note fr = isNodeFree_wf[OF assms(1,2) c]
  have u: "[col..<m_size g] = col # [Suc col..<m_size g]" using c by (simp add: upt_conv_Cons)
  show ?case
  proof (cases "colour_at g (Position_ctor row col) = WHITE")
    case True
    show ?thesis
      apply (subst computerPlay_cols.simps)
      apply (simp only: u c if_True fr True sum.case restore_self IH)
      apply (simp add: True Position_ctor_sel split: list.splits sum.splits)
      done
  next
    case False
    show ?thesis
      apply (subst computerPlay_cols.simps)
      apply (simp only: u c if_True fr False sum.case if_False IH)
      apply (simp add: False)
      done
  qed
qed

lemma computerPlay_rows_collect:
  assumes "wf_game g"
  shows "computerPlay_rows rnd g (m_tree g) (m_play_total g) row outputs =
     collect rnd g (concat (map (\<lambda>r. map (Position_ctor r)
                      (filter (\<lambda>c. colour_at g (Position_ctor r c) = WHITE) [0..<m_size g]))
                    [row..<m_size g]))
       outputs"
proof (induction "m_size g - row" arbitrary: row rnd outputs)
  case 0
  then show ?case by (subst computerPlay_rows.simps) simp
next
  case (Suc k)
  then have r: "row < m_size g" by simp
  have k: "k = m_size g - Suc row" using Suc.hyps(2) by simp
  note IH = Suc.hyps(1)[OF k]
  have u: "[row..<m_size g] = row # [Suc row..<m_size g]" using r by (simp add: upt_conv_Cons)
  let ?ps = "map (Position_ctor row)
               (filter (\<lambda>c. colour_at g (Position_ctor row c) = WHITE) [0..<m_size g])"
  show ?case
  proof (cases "collect rnd g ?ps outputs")
    case (Inl e)
    then show ?thesis
      apply (subst computerPlay_rows.simps)
      apply (simp only: r if_True computerPlay_cols_collect[OF assms r] u)
      apply (simp add: collect_append)
      done
  next
    case (Inr x)
    obtain g' outs' rnd' where x: "x = (g', outs', rnd')" by (cases x)
    have g': "g' = g" using collect_game[OF Inr[unfolded x]] .
    show ?thesis
      apply (subst computerPlay_rows.simps)
      apply (simp only: r if_True computerPlay_cols_collect[OF assms r] u)
      apply (simp add: collect_append Inr x g' IH)
      done
  qed
qed

lemma computerPlay_collect:
  assumes "wf_game g"
  shows "computerPlay std_sort rnd g =
     (case collect rnd g (free_cells g) [] of
        Inl e \<Rightarrow> Inl e
      | Inr (g', outputs, rnd') \<Rightarrow>
          (case std_sort outputs of
             [] \<Rightarrow> Inl OutOfRange
           | best # _ \<Rightarrow>
               (case addPlay g SECOND (m_row best) (m_col best) of
                  Inl e \<Rightarrow> Inl e
                | Inr (ok, g'') \<Rightarrow> Inr g'')))"
proof (cases "collect rnd g (free_cells g) []")
  case (Inl e)
  then show ?thesis
    by (simp add: computerPlay_def computerPlay_rows_collect[OF assms] free_cells_def)
next
  case (Inr x)
  obtain g' outs' rnd' where x: "x = (g', outs', rnd')" by (cases x)
  have g': "g' = g" using collect_game[OF Inr[unfolded x]] .
  show ?thesis
    using Inr
    by (simp add: computerPlay_def computerPlay_rows_collect[OF assms] free_cells_def x g')
qed

definition sort_contract :: "(Probability list \<Rightarrow> Probability list) \<Rightarrow> bool" where
  "sort_contract std_sort =
     (\<forall>xs. mset (std_sort xs) = mset xs \<and>
           sorted_wrt (\<lambda>a b. \<not> compareProbability b a) (std_sort xs))"

definition position_of :: "Probability \<Rightarrow> Position" where
  "position_of p = Position_ctor (m_row p) (m_col p)"

lemma Probability_ctor_sel:
  "m_row (Probability_ctor v r c) = r" "m_col (Probability_ctor v r c) = c"
  "m_value (Probability_ctor v r c) = v"
  by (simp_all add: Probability_ctor_def)

lemma thread_results_positions:
  assumes "wf_game g" "thread_results rss g row col = Inr ps"
  shows "length ps = length rss \<and> (\<forall>p\<in>set ps. m_row p = row \<and> m_col p = col)"
  using assms(2)
proof (induction rss arbitrary: ps)
  case Nil
  then show ?case by simp
next
  case (Cons rs rss)
  from Cons.prems obtain p g' rs' qs where t: "testPlay rs g row col = Inr (p, g', rs')"
    and r: "thread_results rss g row col = Inr qs" and ps: "ps = p # qs"
    by (auto split: sum.splits)
  from testPlay_result[OF assms(1) t] have "m_row p = row \<and> m_col p = col"
    by (auto simp: Probability_ctor_sel)
  with Cons.IH[OF r] ps show ?case by simp
qed

lemma testPlay_threaded_position:
  assumes "wf_game g" "testPlay_threaded rss g row col = Inr q"
  shows "m_row q = row \<and> m_col q = col"
proof -
  from assms(2) obtain ps where l: "cn_NUM_OF_THREADS \<le> length rss"
    and t: "thread_results (take cn_NUM_OF_THREADS rss) g row col = Inr ps"
    and a: "averageResults ps = Inr q"
    by (auto simp: testPlay_threaded_def split: if_splits sum.splits)
  from a obtain x xs where ps: "ps = x # xs" and q: "m_row q = m_row x" "m_col q = m_col x"
    by (auto simp: averageResults_def Probability_ctor_sel split: list.splits)
  from thread_results_positions[OF assms(1) t] ps q show ?thesis by simp
qed

lemma collect_positions:
  assumes "wf_game g" "collect rnd g ps outputs = Inr (g', outputs', rnd')"
  shows "\<exists>new. outputs' = outputs @ new \<and> map position_of new = ps"
  using assms(2)
proof (induction ps arbitrary: rnd outputs)
  case Nil
  then show ?case by simp
next
  case (Cons p ps)
  from Cons.prems obtain rss rnd2 q where rnd: "rnd = rss # rnd2"
    and t: "testPlay_threaded rss g (m_row p) (m_col p) = Inr q"
    and r: "collect rnd2 g ps (outputs @ [q]) = Inr (g', outputs', rnd')"
    by (auto split: list.splits sum.splits)
  from Cons.IH[OF r] obtain new where n: "outputs' = (outputs @ [q]) @ new"
    "map position_of new = ps" by blast
  have "position_of q = p"
    using testPlay_threaded_position[OF assms(1) t] by (simp add: position_of_def Position_rc)
  with n show ?case by (intro exI[of _ "q # new"]) simp
qed

lemma set_free_cells:
  "set (free_cells g) = {p. inb g p \<and> colour_at g p = WHITE}"
proof (rule set_eqI)
  fix p :: Position
  have rc: "Position_ctor (m_row p) (m_col p) = p" by (rule Position_rc)
  show "p \<in> set (free_cells g) \<longleftrightarrow> p \<in> {p. inb g p \<and> colour_at g p = WHITE}"
  proof
    assume "p \<in> set (free_cells g)"
    then obtain r c where "r < m_size g" "c < m_size g"
      "colour_at g (Position_ctor r c) = WHITE" "p = Position_ctor r c"
      unfolding free_cells_def by auto
    then show "p \<in> {p. inb g p \<and> colour_at g p = WHITE}"
      by (simp add: inb_def Position_ctor_sel)
  next
    assume "p \<in> {p. inb g p \<and> colour_at g p = WHITE}"
    then have "m_row p < m_size g" "m_col p < m_size g"
      "colour_at g (Position_ctor (m_row p) (m_col p)) = WHITE"
      by (simp_all add: inb_def rc)
    then have "Position_ctor (m_row p) (m_col p) \<in> set (free_cells g)"
      unfolding free_cells_def by auto
    then show "p \<in> set (free_cells g)" by (simp add: rc)
  qed
qed

lemma sort_contract_hd:
  assumes "sort_contract std_sort" "std_sort xs = best # rest"
  shows "best \<in> set xs \<and> (\<forall>q\<in>set xs. m_value q \<le> m_value best)"
proof -
  from assms(1) have m: "mset (std_sort xs) = mset xs"
    and s: "sorted_wrt (\<lambda>a b. \<not> compareProbability b a) (std_sort xs)"
    by (simp_all add: sort_contract_def)
  from m have e: "set xs = set (best # rest)" unfolding assms(2)[symmetric] by (metis set_mset_mset)
  from s have "\<forall>q\<in>set rest. m_value q \<le> m_value best"
    unfolding assms(2) by (auto simp: compareProbability_def)
  with e show ?thesis by auto
qed

lemma computerPlay_selects:
  assumes "wf_game g" "sort_contract std_sort" "computerPlay std_sort rnd g = Inr g'"
  shows "\<exists>outputs rnd' best rest.
     computerPlay_rows rnd g (m_tree g) (m_play_total g) 0 [] = Inr (g, outputs, rnd') \<and>
     map position_of outputs = free_cells g \<and>
     std_sort outputs = best # rest \<and>
     best \<in> set outputs \<and> (\<forall>q\<in>set outputs. m_value q \<le> m_value best) \<and>
     inb g (position_of best) \<and> colour_at g (position_of best) = WHITE \<and>
     g' = colour_node g RED (position_of best)"
proof -
  from assms(3) obtain g1 outputs rnd' where
    c: "collect rnd g (free_cells g) [] = Inr (g1, outputs, rnd')"
    unfolding computerPlay_collect[OF assms(1)] by (auto split: sum.splits)
  have g1: "g1 = g" by (rule collect_game[OF c])
  from assms(3) c obtain best rest where b: "std_sort outputs = best # rest"
    unfolding computerPlay_collect[OF assms(1)] by (auto split: list.splits)
  from assms(3) c b obtain ok where
    ap: "addPlay g SECOND (m_row best) (m_col best) = Inr (ok, g')"
    unfolding computerPlay_collect[OF assms(1)] by (auto split: sum.splits)
  from collect_positions[OF assms(1) c] have pos: "map position_of outputs = free_cells g"
    by simp
  note h = sort_contract_hd[OF assms(2) b]
  then have "position_of best \<in> set (map position_of outputs)" by simp
  then have fr: "inb g (position_of best)" "colour_at g (position_of best) = WHITE"
    unfolding pos set_free_cells by simp_all
  from addPlay_eq[OF assms(1) fr(1), of SECOND] fr(2) ap
  have g': "g' = colour_node g RED (position_of best)"
    by (simp add: position_of_def Position_ctor_sel convertPlayer_def)
  have rows: "computerPlay_rows rnd g (m_tree g) (m_play_total g) 0 [] = Inr (g, outputs, rnd')"
    using c g1 by (simp add: computerPlay_rows_collect[OF assms(1)] free_cells_def)
  show ?thesis
    using rows pos b h fr g' by blast
qed


section \<open>Runs of the playouts: existence and an example board\<close>

lemma sum_list_const:
  fixes f :: "'a \<Rightarrow> nat"
  shows "(\<And>x. x \<in> set xs \<Longrightarrow> f x = k) \<Longrightarrow> sum_list (map f xs) = length xs * k"
  by (induction xs) auto

lemma coloured_full:
  assumes "wf_game g" "\<forall>p. inb g p \<longrightarrow> colour_at g p \<noteq> WHITE"
  shows "coloured g = m_size g * m_size g"
proof -
  have row: "coloured_row row = m_size g" if "row \<in> set (m_tree g)" for row
  proof -
    from that obtain r where r: "r < length (m_tree g)" "row = m_tree g ! r"
      by (auto simp: in_set_conv_nth)
    then have rs: "r < m_size g" using wf_game_length[OF assms(1)] by simp
    have len: "length row = m_size g" using wf_game_row_length[OF assms(1) rs] r by simp
    have "(if m_colour n = WHITE then 0 else 1) = (1::nat)" if "n \<in> set row" for n
    proof -
      from that obtain c where c: "c < length row" "n = row ! c"
        by (auto simp: in_set_conv_nth)
      have "inb g (Position_ctor r c)" using rs c len by (simp add: inb_def Position_ctor_sel)
      with assms(2) have "colour_at g (Position_ctor r c) \<noteq> WHITE" by simp
      then show ?thesis using c r by (simp add: colour_at_def node_at_def Position_ctor_sel)
    qed
    from sum_list_const[of row "\<lambda>n. if m_colour n = WHITE then 0 else 1" 1, OF this]
    show ?thesis using len by (simp add: coloured_row_def)
  qed
  from sum_list_const[of "m_tree g" coloured_row "m_size g", OF row]
  show ?thesis using wf_game_length[OF assms(1)] by (simp add: coloured_def)
qed

lemma exists_free:
  assumes "wf_game g" "counted g" "m_play_total g < m_play_maximum g"
  shows "\<exists>p. inb g p \<and> colour_at g p = WHITE"
proof (rule ccontr)
  assume "\<nexists>p. inb g p \<and> colour_at g p = WHITE"
  then have "\<forall>p. inb g p \<longrightarrow> colour_at g p \<noteq> WHITE" by blast
  from coloured_full[OF assms(1) this] assms(2,3) show False
    by (simp add: counted_def)
qed

lemma fill_exists:
  assumes "wf_game g" "counted g"
  shows "\<exists>rs g1 player1. fillBoard rs g player (m_play_total g) = Inr (g1, player1, [])"
  using assms
proof (induction "nat (m_play_maximum g - m_play_total g)" arbitrary: g player)
  case 0
  then have "\<not> m_play_total g < m_play_maximum g" by simp
  from fillBoard_done[OF this, of "[]" player] show ?case by blast
next
  case (Suc k)
  then have lt: "m_play_total g < m_play_maximum g" by simp
  from exists_free[OF Suc.prems lt] obtain p where p: "inb g p" "colour_at g p = WHITE" by blast
  let ?g' = "colour_node g (convertPlayer player) p"
  have nz: "m_size g \<noteq> 0" using p(1) by (auto simp: inb_def)
  have md: "m_row p mod m_size g = m_row p" "m_col p mod m_size g = m_col p"
    using p(1) by (simp_all add: inb_def)
  have ap: "addPlay g player (m_row p) (m_col p) = Inr (True, ?g')"
    using addPlay_eq[OF Suc.prems(1) p(1), of player] p(2) by simp
  note kp = addPlay_keeps[OF Suc.prems(1) ap]
  have k: "k = nat (m_play_maximum ?g' - m_play_total ?g')"
    using Suc.hyps(2) kp(5,6) by simp
  from Suc.hyps(1)[OF k kp(1) kp(2)[OF Suc.prems(2)], of "next_player player"]
  obtain rs g1 player1 where
    f: "fillBoard rs ?g' (next_player player) (m_play_total ?g') = Inr (g1, player1, [])"
    by blast
  have "fillBoard (m_row p # m_col p # rs) g player (m_play_total g) = Inr (g1, player1, [])"
    unfolding fillBoard_step using lt nz ap f kp(6) by (simp add: md)
  then show ?case by blast
qed

lemma playouts_exists:
  assumes "wf_game g" "counted g"
  shows "\<exists>rs wins cnt. playouts rs g (m_tree g) (m_play_total g) limit SECOND 0 0
            = Inr (wins, cnt, g, [])"
proof (cases "0 < limit")
  case False
  from playouts_done[OF False, of "[]" g "m_tree g" "m_play_total g" SECOND 0]
  show ?thesis by blast
next
  case True
  from fill_exists[OF assms, of SECOND] obtain xs g1 player1 where
    f: "fillBoard xs g SECOND (m_play_total g) = Inr (g1, player1, [])" by blast
  have w1: "wf_game g1" using fillBoard_keeps[OF f assms(1)] by simp
  from checkWin_result[OF w1, of SECOND] obtain won where
    c: "checkWin g1 SECOND = Inr (won, unmarked g1)" by blast
  have l: "0 + int (nat limit) = limit" using True by simp
  from playouts_repeat[OF assms(1) f c, of "nat limit" "[]" 0 0, unfolded l]
  show ?thesis by auto
qed

lemma testPlay_exists:
  assumes "wf_game g" "counted g" "row < m_size g" "col < m_size g"
  shows "\<exists>rs p g'. testPlay rs g row col = Inr (p, g', [])"
proof -
  let ?p = "Position_ctor row col"
  have ib: "inb g ?p" using assms(3,4) by (simp add: inb_def Position_ctor_sel)
  from addPlay_eq[OF assms(1) ib, of SECOND]
  obtain ok g0 where ap: "addPlay g SECOND row col = Inr (ok, g0)"
    by (auto simp: Position_ctor_sel split: if_splits)
  note k = addPlay_keeps[OF assms(1) ap]
  from playouts_exists[OF k(1) k(2)[OF assms(2)], of "play_limit g0"]
  obtain rs wins cnt where
    "playouts rs g0 (m_tree g0) (m_play_total g0) (play_limit g0) SECOND 0 0
       = Inr (wins, cnt, g0, [])" by blast
  with ap have "testPlay rs g row col =
      Inr (Probability_ctor (real_of_int wins / real_of_int cnt) row col, g0, [])"
    by (simp add: testPlay_def)
  then show ?thesis by blast
qed

lemma thread_results_replicate:
  assumes "testPlay rs g row col = Inr (p, g', rs')"
  shows "thread_results (replicate n rs) g row col = Inr (replicate n p)"
  by (induction n) (simp_all add: assms)

lemma testPlay_threaded_exists:
  assumes "wf_game g" "counted g" "row < m_size g" "col < m_size g"
  shows "\<exists>rss q. testPlay_threaded rss g row col = Inr q"
proof -
  from testPlay_exists[OF assms] obtain rs p g' where
    t: "testPlay rs g row col = Inr (p, g', [])" by blast
  have "testPlay_threaded (replicate cn_NUM_OF_THREADS rs) g row col
        = averageResults (replicate cn_NUM_OF_THREADS p)"
    by (simp add: testPlay_threaded_def thread_results_replicate[OF t])
  moreover have "\<exists>q. averageResults (replicate cn_NUM_OF_THREADS p) = Inr q"
    by (simp add: averageResults_def cn_NUM_OF_THREADS_def split: list.splits)
  ultimately show ?thesis by metis
qed

lemma collect_exists:
  assumes "wf_game g" "counted g" "\<forall>p\<in>set ps. inb g p"
  shows "\<exists>rnd outputs'. collect rnd g ps outputs = Inr (g, outputs', [])"
  using assms(3)
proof (induction ps arbitrary: outputs)
  case Nil
  show ?case by (intro exI[of _ "[]"] exI[of _ outputs]) simp
next
  case (Cons p ps)
  then have ib: "m_row p < m_size g" "m_col p < m_size g" by (simp_all add: inb_def)
  from testPlay_threaded_exists[OF assms(1,2) ib] obtain rss q where
    t: "testPlay_threaded rss g (m_row p) (m_col p) = Inr q" by blast
  from Cons.IH[of "outputs @ [q]"] Cons.prems obtain rnd outputs' where
    c: "collect rnd g ps (outputs @ [q]) = Inr (g, outputs', [])" by auto
  have "collect (rss # rnd) g (p # ps) outputs = Inr (g, outputs', [])"
    using t c by simp
  then show ?case by blast
qed

lemma computerPlay_exists:
  assumes "wf_game g" "counted g" "sort_contract std_sort" "free_cells g \<noteq> []"
  shows "\<exists>rnd g'. computerPlay std_sort rnd g = Inr g'"
proof -
  have "\<forall>p\<in>set (free_cells g). inb g p" by (simp add: set_free_cells)
  from collect_exists[OF assms(1,2) this, of "[]"] obtain rnd outputs where
    c: "collect rnd g (free_cells g) [] = Inr (g, outputs, [])" by blast
  from collect_positions[OF assms(1) c] have pos: "map position_of outputs = free_cells g"
    by simp
  with assms(4) have ne: "outputs \<noteq> []" by auto
  have "mset (std_sort outputs) = mset outputs" using assms(3) by (simp add: sort_contract_def)
  with ne have "std_sort outputs \<noteq> []" by (metis mset_zero_iff)
  then obtain best rest where b: "std_sort outputs = best # rest" by (cases "std_sort outputs") auto
  from sort_contract_hd[OF assms(3) b] have "position_of best \<in> set (map position_of outputs)"
    by simp
  then have fr: "inb g (position_of best)" "colour_at g (position_of best) = WHITE"
    unfolding pos set_free_cells by simp_all
  from addPlay_eq[OF assms(1) fr(1), of SECOND] fr(2)
  have "addPlay g SECOND (m_row best) (m_col best)
        = Inr (True, colour_node g (convertPlayer SECOND) (position_of best))"
    by (simp add: position_of_def Position_ctor_sel)
  then have "computerPlay std_sort rnd g = Inr (colour_node g (convertPlayer SECOND) (position_of best))"
    unfolding computerPlay_collect[OF assms(1)] using c b by simp
  then show ?thesis by blast
qed

definition board_9' :: HexGame where
  "board_9' = colour_node board_8' RED (Position_ctor 1 0)"

definition insertion_sort :: "Probability list \<Rightarrow> Probability list" where
  "insertion_sort xs = sort_key (\<lambda>p. - m_value p) xs"

definition rand_7 :: "nat list list list" where
  "rand_7 = [replicate 10 (concat (replicate 150 [2, 0])),
             replicate 10 (concat (replicate 150 [1, 0]))]"

lemma sort_key_contract: "sort_contract (\<lambda>xs. sort_key (\<lambda>p. - m_value p) (f xs))"
  if "\<And>xs. mset (f xs) = mset xs"
proof -
  have "sorted_wrt (\<lambda>a b. \<not> compareProbability b a) (sort_key (\<lambda>p. - m_value p) ys)" for ys
  proof -
    have "sorted (map (\<lambda>p. - m_value p) (sort_key (\<lambda>p. - m_value p) ys))" by simp
    then show ?thesis
      unfolding sorted_wrt_map compareProbability_def
      by (rule sorted_wrt_mono_rel[rotated]) auto
  qed
  then show ?thesis using that by (simp add: sort_contract_def)
qed

lemma insertion_sort_contract: "sort_contract insertion_sort"
  unfolding insertion_sort_def by (rule sort_key_contract[of "\<lambda>xs. xs"]) simp

lemma testPlay_repeat:
  assumes "wf_game g" "addPlay g SECOND row col = Inr (ok, g0)"
    "fillBoard xs g0 SECOND (m_play_total g0) = Inr (g1, player1, [])"
    "checkWin g1 SECOND = Inr (won, g2)" "play_limit g0 = int n"
  shows "testPlay (concat (replicate n xs)) g row col =
     Inr (Probability_ctor (real_of_int (if won then int n else 0) / real_of_int (int n + 1))
            row col, g0, [])"
proof -
  note w0 = addPlay_keeps(1)[OF assms(1,2)]
  from playouts_repeat[OF w0 assms(3,4), of n "[]" 0 0]
  show ?thesis by (simp add: testPlay_def assms(2,5))
qed

lemma fold_replicate_value:
  "fold (\<lambda>a total. total + m_value a) (replicate k p) s = s + real k * m_value p"
  by (induction k arbitrary: s) (simp_all add: algebra_simps)

lemma averageResults_replicate:
  "averageResults (replicate (Suc k) p) = Inr (Probability_ctor (m_value p) (m_row p) (m_col p))"
proof -
  have "(m_value p + real k * m_value p) / (1 + real k) = m_value p"
  proof -
    have "m_value p + real k * m_value p = m_value p * (1 + real k)" by (simp add: algebra_simps)
    then show ?thesis by simp
  qed
  moreover have "fold (\<lambda>a total. total + m_value a) (replicate (Suc k) p) 0
      = m_value p + real k * m_value p"
    unfolding fold_replicate_value by (simp add: algebra_simps)
  ultimately show ?thesis
    unfolding averageResults_def by (simp del: fold_replicate fold_simps)
qed

lemma testPlay_threaded_replicate:
  assumes "testPlay rs g row col = Inr (Probability_ctor v row col, g', rs')"
  shows "testPlay_threaded (replicate 10 rs) g row col = Inr (Probability_ctor v row col)"
proof -
  have t: "thread_results (replicate 10 rs) g row col = Inr (replicate 10 (Probability_ctor v row col))"
    by (rule thread_results_replicate[OF assms])
  have a: "averageResults (replicate 10 (Probability_ctor v row col)) = Inr (Probability_ctor v row col)"
  proof -
    have e: "(10::nat) = Suc 9" by simp
    show ?thesis unfolding e averageResults_replicate Probability_ctor_sel ..
  qed
  show ?thesis
    unfolding testPlay_threaded_def cn_NUM_OF_THREADS_def
    by (simp only: length_replicate take_all order_refl less_irrefl if_False t sum.case a)
qed

lemma board_7_cells:
  "colour_at board_7 (Position_ctor 1 0) = WHITE" "colour_at board_7 (Position_ctor 2 0) = WHITE"
  "colour_at board_8 (Position_ctor 2 0) = WHITE" "colour_at board_8' (Position_ctor 1 0) = WHITE"
  by code_simp+

lemma board_9'_wins: "(case checkWin board_9' SECOND of Inl e \<Rightarrow> False | Inr (won, g) \<Rightarrow> won)"
  by code_simp

lemma free_cells_board_7: "free_cells board_7 = [Position_ctor 1 0, Position_ctor 2 0]"
  by code_simp

lemma wf_board_8: "wf_game board_8" "m_size board_8 = 3" "m_play_total board_8 = 8"
  "m_play_maximum board_8 = 9"
proof -
  have ib: "inb board_7 (Position_ctor 1 0)"
    by (simp add: inb_def wf_board_7(2) Position_ctor_sel)
  show w: "wf_game board_8" unfolding board_8_def by (rule colour_node_wf[OF wf_board_7(1) ib])
  show s: "m_size board_8 = 3" by (simp add: board_8_def colour_node_fields wf_board_7(2))
  show "m_play_total board_8 = 8" by (simp add: board_8_def colour_node_fields board_7_total)
  show "m_play_maximum board_8 = 9" using wf_play_maximum[OF w] s by simp
qed

lemma wf_board_8': "wf_game board_8'" "m_size board_8' = 3" "m_play_total board_8' = 8"
  "m_play_maximum board_8' = 9"
proof -
  have ib: "inb board_7 (Position_ctor 2 0)"
    by (simp add: inb_def wf_board_7(2) Position_ctor_sel)
  show w: "wf_game board_8'" unfolding board_8'_def by (rule colour_node_wf[OF wf_board_7(1) ib])
  show s: "m_size board_8' = 3" by (simp add: board_8'_def colour_node_fields wf_board_7(2))
  show "m_play_total board_8' = 8" by (simp add: board_8'_def colour_node_fields board_7_total)
  show "m_play_maximum board_8' = 9" using wf_play_maximum[OF w] s by simp
qed

lemma wf_board_9: "wf_game board_9" "m_play_total board_9 = 9" "m_play_maximum board_9 = 9"
proof -
  have ib: "inb board_8 (Position_ctor 2 0)"
    by (simp add: inb_def wf_board_8(2) Position_ctor_sel)
  show w: "wf_game board_9" unfolding board_9_def by (rule colour_node_wf[OF wf_board_8(1) ib])
  show "m_play_total board_9 = 9" by (simp add: board_9_def colour_node_fields wf_board_8(3))
  show "m_play_maximum board_9 = 9" by (simp add: board_9_def colour_node_fields wf_board_8(4))
qed

lemma wf_board_9': "wf_game board_9'" "m_play_total board_9' = 9" "m_play_maximum board_9' = 9"
proof -
  have ib: "inb board_8' (Position_ctor 1 0)"
    by (simp add: inb_def wf_board_8'(2) Position_ctor_sel)
  show w: "wf_game board_9'" unfolding board_9'_def by (rule colour_node_wf[OF wf_board_8'(1) ib])
  show "m_play_total board_9' = 9" by (simp add: board_9'_def colour_node_fields wf_board_8'(3))
  show "m_play_maximum board_9' = 9" by (simp add: board_9'_def colour_node_fields wf_board_8'(4))
qed

lemma addPlay_free:
  assumes "wf_game g" "row < m_size g" "col < m_size g"
    "colour_at g (Position_ctor row col) = WHITE"
  shows "addPlay g player row col =
     Inr (True, colour_node g (convertPlayer player) (Position_ctor row col))"
proof -
  have ib: "inb g (Position_ctor row col)" using assms(2,3) by (simp add: inb_def Position_ctor_sel)
  from addPlay_eq[OF assms(1) ib, of player] assms(4) show ?thesis
    by (simp add: Position_ctor_sel)
qed

lemma candidate_1_0: "addPlay board_7 SECOND 1 0 = Inr (True, board_8)"
  using addPlay_free[OF wf_board_7(1) _ _ board_7_cells(1), of SECOND]
  by (simp add: wf_board_7(2) convertPlayer_def board_8_def)

lemma candidate_2_0: "addPlay board_7 SECOND 2 0 = Inr (True, board_8')"
  using addPlay_free[OF wf_board_7(1) _ _ board_7_cells(2), of SECOND]
  by (simp add: wf_board_7(2) convertPlayer_def board_8'_def)

lemma fill_board_8:
  "fillBoard [2, 0] board_8 SECOND (m_play_total board_8) = Inr (board_9, FIRST, [])"
proof -
  have ap: "addPlay board_8 SECOND 2 0 = Inr (True, board_9)"
    using addPlay_free[OF wf_board_8(1) _ _ board_7_cells(3), of SECOND]
    by (simp add: wf_board_8(2) convertPlayer_def board_9_def)
  have d: "fillBoard [] board_9 FIRST 9 = Inr (board_9, FIRST, [])"
    by (rule fillBoard_done) (simp add: wf_board_9(3))
  show ?thesis
    unfolding fillBoard_step wf_board_8
    by (simp add: ap d next_player_def)
qed

lemma fill_board_8':
  "fillBoard [1, 0] board_8' SECOND (m_play_total board_8') = Inr (board_9', FIRST, [])"
proof -
  have ap: "addPlay board_8' SECOND 1 0 = Inr (True, board_9')"
    using addPlay_free[OF wf_board_8'(1) _ _ board_7_cells(4), of SECOND]
    by (simp add: wf_board_8'(2) convertPlayer_def board_9'_def)
  have d: "fillBoard [] board_9' FIRST 9 = Inr (board_9', FIRST, [])"
    by (rule fillBoard_done) (simp add: wf_board_9'(3))
  show ?thesis
    unfolding fillBoard_step wf_board_8'
    using ap by (simp add: d next_player_def)
qed

lemma checkWin_board_9: "checkWin board_9 SECOND = Inr (True, unmarked board_9)"
  using checkWin_result[OF wf_board_9(1), of SECOND] board_9_wins by auto

lemma checkWin_board_9': "checkWin board_9' SECOND = Inr (True, unmarked board_9')"
  using checkWin_result[OF wf_board_9'(1), of SECOND] board_9'_wins by auto

lemma play_limit_3: "m_size g = 3 \<Longrightarrow> play_limit g = int 150"
  by (simp add: play_limit_def cn_MAXIMUM_PLAY_LIMIT_def)

lemma testPlay_board_7_1_0:
  "testPlay (concat (replicate 150 [2, 0])) board_7 1 0
     = Inr (Probability_ctor (150 / 151) 1 0, board_8, [])"
  using testPlay_repeat[OF wf_board_7(1) candidate_1_0 fill_board_8 checkWin_board_9
      play_limit_3[OF wf_board_8(2)]]
  by simp

lemma testPlay_board_7_2_0:
  "testPlay (concat (replicate 150 [1, 0])) board_7 2 0
     = Inr (Probability_ctor (150 / 151) 2 0, board_8', [])"
  using testPlay_repeat[OF wf_board_7(1) candidate_2_0 fill_board_8' checkWin_board_9'
      play_limit_3[OF wf_board_8'(2)]]
  by simp

lemma outputs_board_7:
  "collect rand_7 board_7 (free_cells board_7) []
     = Inr (board_7, [Probability_ctor (150 / 151) 1 0, Probability_ctor (150 / 151) 2 0], [])"
  unfolding free_cells_board_7 rand_7_def
  by (simp del: One_nat_def add: Position_ctor_sel
      testPlay_threaded_replicate[OF testPlay_board_7_1_0]
      testPlay_threaded_replicate[OF testPlay_board_7_2_0])

lemma rows_board_7:
  "computerPlay_rows rand_7 board_7 (m_tree board_7) (m_play_total board_7) 0 []
     = Inr (board_7, [Probability_ctor (150 / 151) 1 0, Probability_ctor (150 / 151) 2 0], [])"
  using outputs_board_7
  by (simp add: computerPlay_rows_collect[OF wf_board_7(1)] free_cells_def)

lemma computerPlay_board_7_insertion:
  "computerPlay insertion_sort rand_7 board_7 = Inr board_8"
  unfolding computerPlay_collect[OF wf_board_7(1)] outputs_board_7
  by (simp del: One_nat_def add: insertion_sort_def Probability_ctor_sel candidate_1_0)


section \<open>The play counters\<close>

inductive reachable :: "HexGame \<Rightarrow> bool" where
  construct: "sz < 256 \<Longrightarrow> reachable (HexGame_ctor sz junk)"
| play: "reachable g \<Longrightarrow> playInterface g player row col = Inr (ok, g') \<Longrightarrow> reachable g'"
| computer: "reachable g \<Longrightarrow> computerPlay std_sort rnd g = Inr g' \<Longrightarrow> reachable g'"
| test: "reachable g \<Longrightarrow> testPlay rs g row col = Inr (p, g', rs') \<Longrightarrow> reachable g'"
| check: "reachable g \<Longrightarrow> checkWin g player = Inr (ret, g') \<Longrightarrow> reachable g'"

lemma coloured_row_filter:
  "coloured_row ns = length (filter (\<lambda>n. m_colour n \<noteq> WHITE) ns)"
  unfolding coloured_row_def by (induction ns) auto

lemma coloured_filter:
  "coloured g = length (filter (\<lambda>n. m_colour n \<noteq> WHITE) (concat (m_tree g)))"
proof -
  have "sum_list (map coloured_row t) = length (filter (\<lambda>n. m_colour n \<noteq> WHITE) (concat t))" for t
    by (induction t) (simp_all add: coloured_row_filter)
  then show ?thesis by (simp add: coloured_def)
qed

lemma coloured_unmarked: "coloured (unmarked g) = coloured g"
proof -
  have "coloured_row (map unmark row) = coloured_row row" for row
    by (simp add: coloured_row_def comp_def)
  then show ?thesis by (simp add: coloured_def unmarked_def comp_def)
qed

lemma counted_unmarked: "counted g \<Longrightarrow> counted (unmarked g)"
  by (simp add: counted_def coloured_unmarked unmarked_fields)

lemma reachable_invariant: "reachable g \<Longrightarrow> wf_game g \<and> counted g"
proof (induction rule: reachable.induct)
  case (construct sz junk)
  then show ?case by (simp add: wf_HexGame_ctor counted_ctor)
next
  case (play g player row col ok g')
  then show ?case using playInterface_keeps[of g player row col ok g'] by simp
next
  case (computer g std_sort rnd g')
  then have w: "wf_game g" and c: "counted g" by simp_all
  from computer(2) obtain g1 outputs rnd' where
    cl: "collect rnd g (free_cells g) [] = Inr (g1, outputs, rnd')"
    unfolding computerPlay_collect[OF w] by (auto split: sum.splits)
  from computer(2) cl obtain best rest where b: "std_sort outputs = best # rest"
    unfolding computerPlay_collect[OF w] by (auto split: list.splits)
  from computer(2) cl b obtain ok where
    ap: "addPlay g SECOND (m_row best) (m_col best) = Inr (ok, g')"
    unfolding computerPlay_collect[OF w] by (auto split: sum.splits)
  from addPlay_keeps(1,2)[OF w ap] c show ?case by simp
next
  case (test g rs row col p g' rs')
  then have w: "wf_game g" and c: "counted g" by simp_all
  from testPlay_result[OF w test(2)] obtain ok where
    ap: "addPlay g SECOND row col = Inr (ok, g')" by blast
  from addPlay_keeps(1,2)[OF w ap] c show ?case by simp
next
  case (check g player ret g')
  then have w: "wf_game g" and c: "counted g" by simp_all
  from checkWin_result[OF w, of player] check(2) have "g' = unmarked g" by auto
  then show ?case using w c by (simp add: wf_unmarked counted_unmarked)
qed

lemma length_concat_tree:
  assumes "wf_game g"
  shows "length (concat (m_tree g)) = m_size g * m_size g"
proof -
  have "length row = m_size g" if "row \<in> set (m_tree g)" for row
    using wf_rect[OF assms] that by (simp add: rect_def)
  from sum_list_const[of "m_tree g" length "m_size g", OF this]
  show ?thesis using wf_game_length[OF assms] by (simp add: length_concat)
qed

lemma full_no_white:
  assumes "wf_game g" "coloured g = m_size g * m_size g" "inb g p"
  shows "colour_at g p \<noteq> WHITE"
proof -
  let ?P = "\<lambda>n. m_colour n \<noteq> WHITE"
  let ?ns = "concat (m_tree g)"
  have "length (filter ?P ?ns) = length ?ns"
    using assms(2) coloured_filter[of g] length_concat_tree[OF assms(1)] by simp
  with sum_length_filter_compl[of ?P ?ns] have "filter (\<lambda>n. \<not> ?P n) ?ns = []" by simp
  then have all: "\<forall>n\<in>set ?ns. ?P n" by (simp add: filter_empty_conv)
  have r: "m_row p < length (m_tree g)" and c: "m_col p < length (m_tree g ! m_row p)"
    using assms(3) wf_game_length[OF assms(1)] wf_game_row_length[OF assms(1), of "m_row p"]
    by (simp_all add: inb_def)
  have "m_tree g ! m_row p \<in> set (m_tree g)" using r by simp
  moreover have "node_at g p \<in> set (m_tree g ! m_row p)" using c by (simp add: node_at_def)
  ultimately have "node_at g p \<in> set ?ns" unfolding set_concat by (rule UN_I)
  from bspec[OF all this] show ?thesis by (simp add: colour_at_def)
qed

lemma fillBoard_full:
  assumes "wf_game g" "counted g" "fillBoard rs g player (m_play_total g) = Inr (g1, player1, rs1)"
    "m_play_total g \<le> m_play_maximum g" "inb g p"
  shows "colour_at g1 p \<noteq> WHITE"
proof -
  note k = fillBoard_keeps[OF assms(3,1)]
  have c1: "counted g1" using k assms(2) by simp
  have "m_play_total g1 = m_play_maximum g1" using k assms(4) by (auto split: if_splits)
  with c1 have "coloured g1 = m_size g1 * m_size g1"
    by (simp add: counted_def) (metis of_nat_eq_iff of_nat_mult)
  moreover have "inb g1 p" using assms(5) k by (simp add: inb_def)
  ultimately show ?thesis using full_no_white k by blast
qed

lemma counted_total_le:
  assumes "wf_game g" "counted g"
  shows "m_play_total g \<le> m_play_maximum g"
proof -
  have "length (filter (\<lambda>n. m_colour n \<noteq> WHITE) (concat (m_tree g))) \<le> length (concat (m_tree g))"
    by (rule length_filter_le)
  then have "coloured g \<le> m_size g * m_size g"
    by (simp add: coloured_filter length_concat_tree[OF assms(1)])
  then have "int (coloured g) \<le> int (m_size g) * int (m_size g)"
    by (metis of_nat_le_iff of_nat_mult)
  then show ?thesis using assms(2) by (simp add: counted_def)
qed


section \<open>The counters, the playouts and the chosen move\<close>

lemma white_not_full:
  assumes "wf_game g" "inb g p" "colour_at g p = WHITE"
  shows "coloured g < m_size g * m_size g"
proof -
  have "coloured g \<le> m_size g * m_size g"
    using length_filter_le[of "\<lambda>n. m_colour n \<noteq> WHITE" "concat (m_tree g)"]
    by (simp add: coloured_filter length_concat_tree[OF assms(1)])
  moreover have "coloured g \<noteq> m_size g * m_size g"
    using full_no_white[OF assms(1) _ assms(2)] assms(3) by blast
  ultimately show ?thesis by simp
qed

lemma reachable_board_after: "reachable g \<Longrightarrow> reachable (board_after g moves)"
proof (induction g moves rule: board_after.induct)
  case (1 g)
  then show ?case by simp
next
  case (2 g player row col moves)
  show ?case
  proof (cases "playInterface g player row col")
    case (Inl e)
    then show ?thesis using "2.prems" by simp
  next
    case (Inr x)
    obtain ok g' where x: "x = (ok, g')" by (cases x)
    have "reachable g'" by (rule reachable.play[OF "2.prems" Inr[unfolded x]])
    from "2.IH"[OF Inr x[symmetric] this] show ?thesis by (simp add: Inr x)
  qed
qed

lemma reachable_board_7: "reachable board_7"
  unfolding board_7_def by (rule reachable_board_after) (simp add: reachable.construct)

text \<open>
  C10.  In every game reachable from the constructor through \<^verbatim>\<open>playInterface\<close>,
  \<^verbatim>\<open>computerPlay\<close>, \<^verbatim>\<open>testPlay\<close> and \<^verbatim>\<open>checkWin\<close>, \<^verbatim>\<open>m_play_total\<close> is the number of nodes
  whose colour is not white and \<^verbatim>\<open>m_play_maximum\<close> is the square of the size.  So the
  test \<^verbatim>\<open>idx < m_play_maximum\<close> of the fill loop of \<^verbatim>\<open>testPlay\<close>, started at
  \<^verbatim>\<open>m_play_total\<close>, holds exactly while a free node is left, and when the loop has ended
  no node is free.
\<close>

theorem play_total_counts_coloured:
  assumes "reachable g"
  shows "m_play_total g = int (length (filter (\<lambda>n. m_colour n \<noteq> WHITE) (concat (m_tree g)))) \<and>
     m_play_maximum g = int (m_size g) * int (m_size g) \<and>
     ((\<exists>row col. row < m_size g \<and> col < m_size g \<and> isNodeFree g row col = Inr True)
        \<longleftrightarrow> m_play_total g < m_play_maximum g) \<and>
     (\<forall>rs player g1 player1 rs1.
        fillBoard rs g player (m_play_total g) = Inr (g1, player1, rs1) \<longrightarrow>
        (\<forall>row col. row < m_size g \<and> col < m_size g \<longrightarrow> isNodeFree g1 row col = Inr False))"
proof -
  from reachable_invariant[OF assms] have w: "wf_game g" and c: "counted g" by simp_all
  have a: "m_play_total g = int (length (filter (\<lambda>n. m_colour n \<noteq> WHITE) (concat (m_tree g))))"
    using c by (simp add: counted_def coloured_filter)
  have b: "m_play_maximum g = int (m_size g) * int (m_size g)"
    using c by (simp add: counted_def)
  have free_iff: "(\<exists>row col. row < m_size g \<and> col < m_size g \<and> isNodeFree g row col = Inr True)
        \<longleftrightarrow> m_play_total g < m_play_maximum g"
  proof
    assume "\<exists>row col. row < m_size g \<and> col < m_size g \<and> isNodeFree g row col = Inr True"
    then obtain row col where f: "row < m_size g" "col < m_size g"
      "isNodeFree g row col = Inr True" by blast
    then have "inb g (Position_ctor row col)" "colour_at g (Position_ctor row col) = WHITE"
      using isNodeFree_wf[OF w f(1,2)] by (simp_all add: inb_def Position_ctor_sel)
    from white_not_full[OF w this] have "int (coloured g) < int (m_size g * m_size g)"
      by (simp only: of_nat_less_iff)
    then show "m_play_total g < m_play_maximum g" using c by (simp add: counted_def)
  next
    assume "m_play_total g < m_play_maximum g"
    from exists_free[OF w c this] obtain p where p: "inb g p" "colour_at g p = WHITE" by blast
    then have "m_row p < m_size g \<and> m_col p < m_size g \<and>
        isNodeFree g (m_row p) (m_col p) = Inr True"
      using isNodeFree_wf[OF w, of "m_row p" "m_col p"] by (simp add: inb_def Position_rc)
    then show "\<exists>row col. row < m_size g \<and> col < m_size g \<and> isNodeFree g row col = Inr True"
      by blast
  qed
  have fill: "\<forall>rs player g1 player1 rs1.
        fillBoard rs g player (m_play_total g) = Inr (g1, player1, rs1) \<longrightarrow>
        (\<forall>row col. row < m_size g \<and> col < m_size g \<longrightarrow> isNodeFree g1 row col = Inr False)"
  proof (intro allI impI)
    fix rs player g1 player1 rs1 row col
    assume f: "fillBoard rs g player (m_play_total g) = Inr (g1, player1, rs1)"
      and rc: "row < m_size g \<and> col < m_size g"
    then have ib: "inb g (Position_ctor row col)" by (simp add: inb_def Position_ctor_sel)
    note k = fillBoard_keeps[OF f w]
    from fillBoard_full[OF w c f counted_total_le[OF w c] ib]
    show "isNodeFree g1 row col = Inr False"
      using isNodeFree_wf[of g1 row col] k rc by simp
  qed
  from a b free_iff fill show ?thesis by blast
qed

theorem play_total_counts_coloured_witness:
  "reachable board_7 \<and>
   m_play_total board_7 =
     int (length (filter (\<lambda>n. m_colour n \<noteq> WHITE) (concat (m_tree board_7)))) \<and>
   m_play_maximum board_7 = int (m_size board_7) * int (m_size board_7) \<and>
   m_play_total board_7 = 7 \<and> m_size board_7 = 3"
  using play_total_counts_coloured[OF reachable_board_7] reachable_board_7
    board_7_total wf_board_7(2)
  by simp

lemma playouts_board_8:
  "playouts (concat (replicate 150 [2, 0])) board_8 (m_tree board_8) (m_play_total board_8)
     (play_limit board_8) SECOND 0 0 = Inr (150, 151, board_8, [])"
  using playouts_repeat[OF wf_board_8(1) fill_board_8 checkWin_board_9, of 150 "[]" 0 0]
  by (simp add: play_limit_3[OF wf_board_8(2)])

lemma green_fill_loses:
  "(case checkWin (colour_node board_8 GREEN (Position_ctor 2 0)) SECOND of
      Inl e \<Rightarrow> False | Inr (won, g) \<Rightarrow> \<not> won)"
  by code_simp

lemma board_9_red: "isNodeColour board_9 RED 2 0 = Inr True"
  by code_simp

text \<open>
  C4.  The board \<open>board_7\<close> is, row by row, R G G / . G R / . R G, with the second
  player (red) to move.  For the candidate (1,0) and random values that always point
  to (2,0), the 150 playouts of the 3 by 3 board are all won by the second player, and
  the counter of the loop \<^verbatim>\<open>while (count++ < limit)\<close> ends at 151: \<^verbatim>\<open>testPlay\<close> returns
  150/151, not the 150/150 of wins over playouts run.
\<close>

theorem testPlay_divides_by_limit_plus_one:
  "play_limit board_8 = 150 \<and>
   playouts (concat (replicate 150 [2, 0])) board_8 (m_tree board_8) (m_play_total board_8)
     (play_limit board_8) SECOND 0 0 = Inr (150, 151, board_8, []) \<and>
   testPlay (concat (replicate 150 [2, 0])) board_7 1 0
     = Inr (Probability_ctor (150 / 151) 1 0, board_8, []) \<and>
   (150 / 151 :: real) \<noteq> 150 / 150"
  using play_limit_3[OF wf_board_8(2)] playouts_board_8 testPlay_board_7_1_0 by simp

text \<open>
  C7.  On \<open>board_7\<close> the candidate (1,0) is placed for the second player, and the fill
  loop that follows starts with the second player again: the only free node (2,0) is
  coloured red, the second player wins every playout and \<^verbatim>\<open>testPlay\<close> returns 150/151.
  With the first player's colour on (2,0), as the alternation of turns asks, the
  second player has no connection.
\<close>

theorem playout_starts_with_second_player:
  "addPlay board_7 SECOND 1 0 = Inr (True, board_8) \<and>
   fillBoard [2, 0] board_8 SECOND (m_play_total board_8) = Inr (board_9, FIRST, []) \<and>
   isNodeColour board_9 RED 2 0 = Inr True \<and>
   testPlay (concat (replicate 150 [2, 0])) board_7 1 0
     = Inr (Probability_ctor (150 / 151) 1 0, board_8, []) \<and>
   (case checkWin (colour_node board_8 GREEN (Position_ctor 2 0)) SECOND of
      Inl e \<Rightarrow> False | Inr (won, g) \<Rightarrow> \<not> won)"
  using candidate_1_0 fill_board_8 board_9_red testPlay_board_7_1_0 green_fill_loses
  by simp

text \<open>
  C8.  On a well-formed game whose counters are right and which has a free node, for
  every sorting function meeting the contract of \<^verbatim>\<open>std::sort\<close>: there are random values
  with which \<^verbatim>\<open>computerPlay\<close> returns, and whenever it returns, the node it has coloured
  red was free in the game it was called on, and nothing else has changed but the
  play counter.
\<close>

theorem computerPlay_selects_free_node:
  assumes "wf_game g" "counted g" "sort_contract std_sort"
    "\<exists>row col. row < m_size g \<and> col < m_size g \<and> isNodeFree g row col = Inr True"
  shows "(\<exists>rnd g'. computerPlay std_sort rnd g = Inr g') \<and>
     (\<forall>rnd g'. computerPlay std_sort rnd g = Inr g' \<longrightarrow>
        (\<exists>row col. row < m_size g \<and> col < m_size g \<and> isNodeFree g row col = Inr True \<and>
                   g' = colour_node g RED (Position_ctor row col) \<and>
                   isNodeColour g' RED row col = Inr True))"
proof
  from assms(4) obtain row col where f: "row < m_size g" "col < m_size g"
    "isNodeFree g row col = Inr True" by blast
  then have "Position_ctor row col \<in> set (free_cells g)"
    unfolding set_free_cells using isNodeFree_wf[OF assms(1) f(1,2)]
    by (simp add: inb_def Position_ctor_sel)
  then have "free_cells g \<noteq> []" by auto
  from computerPlay_exists[OF assms(1-3) this]
  show "\<exists>rnd g'. computerPlay std_sort rnd g = Inr g'" .
next
  show "\<forall>rnd g'. computerPlay std_sort rnd g = Inr g' \<longrightarrow>
        (\<exists>row col. row < m_size g \<and> col < m_size g \<and> isNodeFree g row col = Inr True \<and>
                   g' = colour_node g RED (Position_ctor row col) \<and>
                   isNodeColour g' RED row col = Inr True)"
  proof (intro allI impI)
    fix rnd g' assume c: "computerPlay std_sort rnd g = Inr g'"
    from computerPlay_selects[OF assms(1,3) c] obtain best where
      b: "inb g (position_of best)" "colour_at g (position_of best) = WHITE"
         "g' = colour_node g RED (position_of best)" by blast
    let ?p = "position_of best"
    have rc: "position_of best = Position_ctor (m_row ?p) (m_col ?p)" by (simp add: Position_rc)
    have w': "wf_game g'" unfolding b(3) by (rule colour_node_wf[OF assms(1) b(1)])
    have ib': "inb g' ?p" using b(1) by (simp add: b(3) colour_node_inb)
    have "colour_at g' ?p = RED"
      unfolding b(3) using colour_node_colour_at[OF assms(1) b(1) b(1)] by simp
    then have red: "isNodeColour g' RED (m_row ?p) (m_col ?p) = Inr True"
      using isNodeColour_colour_at[OF w' ib'] by simp
    have free: "isNodeFree g (m_row ?p) (m_col ?p) = Inr True"
      using isNodeFree_wf[OF assms(1), of "m_row ?p" "m_col ?p"] b(1,2)
      by (simp add: inb_def Position_rc)
    show "\<exists>row col. row < m_size g \<and> col < m_size g \<and> isNodeFree g row col = Inr True \<and>
                   g' = colour_node g RED (Position_ctor row col) \<and>
                   isNodeColour g' RED row col = Inr True"
      using b(1,3) red free rc unfolding inb_def by metis
  qed
qed

theorem computerPlay_selects_free_node_witness:
  "wf_game board_7 \<and> counted board_7 \<and> sort_contract insertion_sort \<and>
   isNodeFree board_7 1 0 = Inr True \<and>
   computerPlay insertion_sort rand_7 board_7 = Inr board_8 \<and>
   (\<exists>row col. row < m_size board_7 \<and> col < m_size board_7 \<and>
        isNodeFree board_7 row col = Inr True \<and>
        board_8 = colour_node board_7 RED (Position_ctor row col) \<and>
        isNodeColour board_8 RED row col = Inr True)"
proof -
  have f: "isNodeFree board_7 1 0 = Inr True"
    using isNodeFree_wf[OF wf_board_7(1), of 1 0] board_7_cells(1) by (simp add: wf_board_7(2))
  then have e: "\<exists>row col. row < m_size board_7 \<and> col < m_size board_7 \<and>
      isNodeFree board_7 row col = Inr True"
    using wf_board_7(2) by (intro exI[of _ 1] exI[of _ 0]) simp
  from computerPlay_selects_free_node[OF wf_board_7(1,3) insertion_sort_contract e]
    computerPlay_board_7_insertion
  have "\<exists>row col. row < m_size board_7 \<and> col < m_size board_7 \<and>
        isNodeFree board_7 row col = Inr True \<and>
        board_8 = colour_node board_7 RED (Position_ctor row col) \<and>
        isNodeColour board_8 RED row col = Inr True" by blast
  then show ?thesis
    using wf_board_7(1,3) insertion_sort_contract f computerPlay_board_7_insertion by blast
qed


section \<open>The uninitialised traverse mark\<close>

text \<open>
  \<^verbatim>\<open>Node::Node(row, col, board)\<close> initialises the position, the colour and the connections
  and says nothing about \<^verbatim>\<open>m_traversed\<close>; \<^verbatim>\<open>Graph::Graph\<close> copies such nodes into the tree.
  So the marks of a fresh game are whatever the memory held.  \<^verbatim>\<open>checkWin\<close> passes over a
  seed whose mark is set and \<^verbatim>\<open>findPath\<close> does not enter a marked node, and the marks are
  cleared only at the end of \<^verbatim>\<open>checkWin\<close>.  The first call of \<^verbatim>\<open>checkWin\<close> on a game therefore
  searches a board on which the cells that happen to carry a mark are missing.

  The two boards below are built by the constructor with every mark set, followed by
  calls of \<^verbatim>\<open>playInterface\<close> only.
\<close>

definition stale_board :: HexGame where
  "stale_board = board_after (HexGame_ctor 3 (\<lambda>row col. True))
     [(SECOND, 0, 0), (SECOND, 1, 0), (SECOND, 2, 0)]"

definition stale_full_board :: HexGame where
  "stale_full_board = board_after (HexGame_ctor 3 (\<lambda>row col. True))
     [(FIRST, 1, 0), (SECOND, 0, 1), (FIRST, 1, 1), (SECOND, 0, 2), (FIRST, 1, 2),
      (SECOND, 2, 0), (FIRST, 0, 0), (SECOND, 2, 1), (FIRST, 2, 2)]"

lemma reachable_stale_board: "reachable stale_board"
  unfolding stale_board_def by (rule reachable_board_after) (simp add: reachable.construct)

lemma reachable_stale_full_board: "reachable stale_full_board"
  unfolding stale_full_board_def by (rule reachable_board_after) (simp add: reachable.construct)

lemma stale_board_colours:
  "map (map m_colour) (m_tree stale_board)
     = [[RED, WHITE, WHITE], [RED, WHITE, WHITE], [RED, WHITE, WHITE]]"
  by code_simp

lemma stale_board_size: "m_size stale_board = 3"
  by code_simp

lemma stale_board_chain:
  "winning_chain stale_board RED [Position_ctor 0 0, Position_ctor 1 0, Position_ctor 2 0]"
  by code_simp

lemma stale_board_first_call:
  "(case checkWin stale_board SECOND of Inl e \<Rightarrow> False | Inr (won, g) \<Rightarrow> \<not> won)"
  by code_simp

lemma stale_board_second_call:
  "(case checkWin (unmarked stale_board) SECOND of Inl e \<Rightarrow> False | Inr (won, g) \<Rightarrow> won)"
  by code_simp

lemma stale_full_board_colours:
  "map (map m_colour) (m_tree stale_full_board)
     = [[GREEN, RED, RED], [GREEN, GREEN, GREEN], [RED, RED, GREEN]]"
  by code_simp

lemma stale_full_board_chain:
  "winning_chain stale_full_board GREEN
     [Position_ctor 1 0, Position_ctor 1 1, Position_ctor 1 2]"
  by code_simp

lemma stale_full_board_first:
  "(case checkWin stale_full_board FIRST of Inl e \<Rightarrow> False | Inr (won, g) \<Rightarrow> \<not> won)"
  by code_simp

lemma stale_full_board_second:
  "(case checkWin stale_full_board SECOND of Inl e \<Rightarrow> False | Inr (won, g) \<Rightarrow> \<not> won)"
  by code_simp

lemma stale_full_board_second_after:
  "(case checkWin (unmarked stale_full_board) SECOND of
      Inl e \<Rightarrow> False | Inr (won, g) \<Rightarrow> \<not> won)"
  by code_simp

lemma stale_full_board_first_again:
  "(case checkWin (unmarked stale_full_board) FIRST of
      Inl e \<Rightarrow> False | Inr (won, g) \<Rightarrow> won)"
  by code_simp

lemma checkWin_value:
  assumes "wf_game g"
    "(case checkWin g player of Inl e \<Rightarrow> False | Inr (won, g') \<Rightarrow> won = b)"
  shows "checkWin g player = Inr (b, unmarked g)"
  using checkWin_result[OF assms(1), of player] assms(2) by auto

text \<open>
  C1 fails on the code.  \<open>stale_board\<close> is the game of size 3 that the constructor
  builds when the memory of every mark holds \<^verbatim>\<open>true\<close>, after the second player has played
  (0,0), (1,0) and (2,0).  The three red cells are a chain from the first row to the
  last row.  \<^verbatim>\<open>checkWin(Player::SECOND)\<close> returns false: the only red seed, (0,0), is
  marked and is passed over.  The call clears the marks, and the same call repeated on
  the board it leaves returns true: the result depends on the marks, not on the
  colours alone.
\<close>

theorem checkWin_misses_chain_under_stale_marks:
  "reachable stale_board \<and> m_size stale_board = 3 \<and>
   winning_chain stale_board RED [Position_ctor 0 0, Position_ctor 1 0, Position_ctor 2 0] \<and>
   checkWin stale_board SECOND = Inr (False, unmarked stale_board) \<and>
   checkWin (unmarked stale_board) SECOND = Inr (True, unmarked stale_board)"
proof -
  have w: "wf_game stale_board" using reachable_invariant[OF reachable_stale_board] by simp
  have w': "wf_game (unmarked stale_board)" using w by (simp add: wf_unmarked)
  have u: "unmarked (unmarked stale_board) = unmarked stale_board"
    by (rule traverse_clear_unmarked[OF traverse_clear_unmarked_game])
  have a: "checkWin stale_board SECOND = Inr (False, unmarked stale_board)"
    using stale_board_first_call by (intro checkWin_value[OF w]) (auto split: sum.splits)
  have b: "checkWin (unmarked stale_board) SECOND = Inr (True, unmarked stale_board)"
    using checkWin_value[OF w', where player = SECOND and b = True] stale_board_second_call
    unfolding u by (auto split: sum.splits)
  show ?thesis
    using reachable_stale_board stale_board_size stale_board_chain a b by simp
qed

text \<open>
  C2 fails on the code, by the same defect.  \<open>stale_full_board\<close> is the game of size 3
  built with every mark set, after nine alternating moves that colour every cell:
  green holds the whole middle row, a chain from the first column to the last, and
  red has no chain.  \<^verbatim>\<open>checkWin(Player::FIRST)\<close> returns false, because the green seed
  (1,0) is marked, and \<^verbatim>\<open>checkWin(Player::SECOND)\<close> returns false as well, whether it is
  called on the board as built or on the board the first call leaves: on this full
  board neither call reports a winner.  Only a further call for the first player, on
  the board with the marks cleared, returns true.
\<close>

theorem checkWin_full_board_without_winner:
  "reachable stale_full_board \<and>
   map (map m_colour) (m_tree stale_full_board)
     = [[GREEN, RED, RED], [GREEN, GREEN, GREEN], [RED, RED, GREEN]] \<and>
   winning_chain stale_full_board GREEN
     [Position_ctor 1 0, Position_ctor 1 1, Position_ctor 1 2] \<and>
   checkWin stale_full_board FIRST = Inr (False, unmarked stale_full_board) \<and>
   checkWin stale_full_board SECOND = Inr (False, unmarked stale_full_board) \<and>
   checkWin (unmarked stale_full_board) SECOND = Inr (False, unmarked stale_full_board) \<and>
   checkWin (unmarked stale_full_board) FIRST = Inr (True, unmarked stale_full_board)"
proof -
  have w: "wf_game stale_full_board"
    using reachable_invariant[OF reachable_stale_full_board] by simp
  have w': "wf_game (unmarked stale_full_board)" using w by (simp add: wf_unmarked)
  have u: "unmarked (unmarked stale_full_board) = unmarked stale_full_board"
    by (rule traverse_clear_unmarked[OF traverse_clear_unmarked_game])
  have a: "checkWin stale_full_board FIRST = Inr (False, unmarked stale_full_board)"
    using stale_full_board_first
    by (intro checkWin_value[OF w]) (auto split: sum.splits)
  have b: "checkWin stale_full_board SECOND = Inr (False, unmarked stale_full_board)"
    using stale_full_board_second
    by (intro checkWin_value[OF w]) (auto split: sum.splits)
  have c: "checkWin (unmarked stale_full_board) SECOND
      = Inr (False, unmarked stale_full_board)"
    using checkWin_value[OF w', where player = SECOND and b = False] stale_full_board_second_after
    unfolding u by (auto split: sum.splits)
  have d: "checkWin (unmarked stale_full_board) FIRST
      = Inr (True, unmarked stale_full_board)"
    using checkWin_value[OF w', where player = FIRST and b = True] stale_full_board_first_again
    unfolding u by (auto split: sum.splits)
  show ?thesis
    using reachable_stale_full_board stale_full_board_colours stale_full_board_chain a b c d
    by simp
qed

section \<open>The sorting function of the library\<close>

text \<open>
  \<^verbatim>\<open>computerPlay\<close> calls \<^verbatim>\<open>std::sort\<close>, which is not code of the program.  The C++ standard
  fixes its contract (\<open>sort_contract\<close>) and leaves the order of equivalent elements open;
  which of several tied candidates comes first is decided by the implementation.  This
  section writes out the implementation of libstdc++, the library of g++
  (\<^verbatim>\<open>bits/stl_algo.h\<close> and \<^verbatim>\<open>bits/stl_heap.h\<close>): an introsort, that is quicksort with the
  median of three as pivot down to ranges of 16 elements, heapsort when the recursion
  gets deeper than twice the logarithm of the length, and one insertion sort over the
  whole range at the end.

  The vector is a list and an iterator is an index into it; \<open>first\<close> and \<open>lst\<close> are the
  source's \<^verbatim>\<open>__first\<close> and \<^verbatim>\<open>__last\<close>, and \<open>cmp\<close> is \<^verbatim>\<open>__comp\<close>.  The library's loops that
  run without a bounds test (\<^verbatim>\<open>__unguarded_partition\<close>, \<^verbatim>\<open>__unguarded_linear_insert\<close>) rely
  on an element of the range to stop them.  In the model they return \<open>None\<close> when they
  would leave the vector, where C++ leaves the behaviour undefined.  Every other
  access is inside the range \<open>first..<lst\<close> the function is called on.
\<close>

definition iter_swap :: "'a list \<Rightarrow> nat \<Rightarrow> nat \<Rightarrow> 'a list" where
  "iter_swap xs a b = xs[a := xs ! b, b := xs ! a]"

text \<open>\<^verbatim>\<open>std::__lg\<close>: the position of the highest bit set, the logarithm to base 2 rounded down.\<close>

fun std_lg :: "nat \<Rightarrow> nat" where
  "std_lg n = (if n < 2 then 0 else Suc (std_lg (n div 2)))"

declare std_lg.simps [simp del]

subsection \<open>Partitioning\<close>

text \<open>
  \<^verbatim>\<open>__move_median_to_first\<close> swaps the median of the elements at \<open>a\<close>, \<open>b\<close> and \<open>c\<close> to
  \<open>result\<close>.  When no two of the three compare as ordered, the element at \<open>b\<close> is taken.
\<close>

definition move_median_to_first :: "('a \<Rightarrow> 'a \<Rightarrow> bool) \<Rightarrow> 'a list \<Rightarrow> nat \<Rightarrow> nat \<Rightarrow> nat \<Rightarrow> nat
    \<Rightarrow> 'a list" where
  "move_median_to_first cmp xs result a b c =
     (if cmp (xs ! a) (xs ! b)
      then (if cmp (xs ! b) (xs ! c) then iter_swap xs result b
            else if cmp (xs ! a) (xs ! c) then iter_swap xs result c
            else iter_swap xs result a)
      else if cmp (xs ! a) (xs ! c) then iter_swap xs result a
      else if cmp (xs ! b) (xs ! c) then iter_swap xs result c
      else iter_swap xs result b)"

text \<open>
  The two inner loops of \<^verbatim>\<open>__unguarded_partition\<close>: \<^verbatim>\<open>while (__comp(__first, __pivot)) ++__first\<close>
  and \<^verbatim>\<open>while (__comp(__pivot, __last)) --__last\<close>.
\<close>

function partition_ascend :: "('a \<Rightarrow> 'a \<Rightarrow> bool) \<Rightarrow> 'a list \<Rightarrow> nat \<Rightarrow> nat \<Rightarrow> nat option" where
  "partition_ascend cmp xs pivot first =
     (if first < length xs
      then (if cmp (xs ! first) (xs ! pivot) then partition_ascend cmp xs pivot (Suc first)
            else Some first)
      else None)"
  by pat_completeness auto
termination
  by (relation "measure (\<lambda>(cmp, xs, pivot, first). length xs - first)") auto

declare partition_ascend.simps [simp del]

fun partition_descend :: "('a \<Rightarrow> 'a \<Rightarrow> bool) \<Rightarrow> 'a list \<Rightarrow> nat \<Rightarrow> nat \<Rightarrow> nat option" where
  "partition_descend cmp xs pivot lst =
     (if lst < length xs
      then (if cmp (xs ! pivot) (xs ! lst)
            then (case lst of 0 \<Rightarrow> None | Suc l \<Rightarrow> partition_descend cmp xs pivot l)
            else Some lst)
      else None)"

declare partition_descend.simps [simp del]

lemma partition_descend_le: "partition_descend cmp xs pivot lst = Some l \<Longrightarrow> l \<le> lst"
proof (induction lst)
  case 0
  then show ?case
    by (subst (asm) partition_descend.simps) (auto split: if_splits)
next
  case (Suc n)
  then show ?case
    by (subst (asm) (2) partition_descend.simps) (auto split: if_splits)
qed

text \<open>
  \<^verbatim>\<open>__unguarded_partition\<close>: the outer loop.  It returns the vector and the cut.  The pivot
  is the element in front of the range, where \<^verbatim>\<open>__move_median_to_first\<close> has put it; the
  swaps do not move it.
\<close>

function unguarded_partition :: "('a \<Rightarrow> 'a \<Rightarrow> bool) \<Rightarrow> 'a list \<Rightarrow> nat \<Rightarrow> nat \<Rightarrow> nat
    \<Rightarrow> ('a list \<times> nat) option" where
  "unguarded_partition cmp xs first lst pivot =
     (case partition_ascend cmp xs pivot first of
        None \<Rightarrow> None
      | Some first1 \<Rightarrow>
          (case lst of
             0 \<Rightarrow> None
           | Suc lst0 \<Rightarrow>
               (case partition_descend cmp xs pivot lst0 of
                  None \<Rightarrow> None
                | Some lst1 \<Rightarrow>
                    if \<not> first1 < lst1 then Some (xs, first1)
                    else unguarded_partition cmp (iter_swap xs first1 lst1)
                           (Suc first1) lst1 pivot)))"
  by pat_completeness auto
termination
  by (relation "measure (\<lambda>(cmp, xs, first, lst, pivot). lst)")
     (auto dest: partition_descend_le)

declare unguarded_partition.simps [simp del]

definition unguarded_partition_pivot :: "('a \<Rightarrow> 'a \<Rightarrow> bool) \<Rightarrow> 'a list \<Rightarrow> nat \<Rightarrow> nat
    \<Rightarrow> ('a list \<times> nat) option" where
  "unguarded_partition_pivot cmp xs first lst =
     (let mid = first + (lst - first) div 2
      in unguarded_partition cmp
           (move_median_to_first cmp xs first (first + 1) mid (lst - 1))
           (first + 1) lst first)"

subsection \<open>Heapsort\<close>

text \<open>
  \<^verbatim>\<open>__push_heap\<close>, \<^verbatim>\<open>__adjust_heap\<close> (its \<^verbatim>\<open>while\<close> loop is \<open>adjust_heap_descend\<close>), \<^verbatim>\<open>__make_heap\<close>,
  \<^verbatim>\<open>__pop_heap\<close>, \<^verbatim>\<open>__sort_heap\<close>, \<^verbatim>\<open>__heap_select\<close> and \<^verbatim>\<open>__partial_sort\<close>.  Indices into the
  heap are relative to \<open>first\<close>, as in the source.
\<close>

function push_heap :: "('a \<Rightarrow> 'a \<Rightarrow> bool) \<Rightarrow> 'a list \<Rightarrow> nat \<Rightarrow> nat \<Rightarrow> nat \<Rightarrow> 'a \<Rightarrow> 'a list" where
  "push_heap cmp xs first holeIndex topIndex val =
     (let parent = (holeIndex - 1) div 2
      in if holeIndex > topIndex \<and> cmp (xs ! (first + parent)) val
         then push_heap cmp (xs[first + holeIndex := xs ! (first + parent)])
                first parent topIndex val
         else xs[first + holeIndex := val])"
  by pat_completeness auto
termination
  by (relation "measure (\<lambda>(cmp, xs, first, holeIndex, topIndex, val). holeIndex)") auto

declare push_heap.simps [simp del]

function adjust_heap_descend :: "('a \<Rightarrow> 'a \<Rightarrow> bool) \<Rightarrow> 'a list \<Rightarrow> nat \<Rightarrow> nat \<Rightarrow> nat
    \<Rightarrow> 'a list \<times> nat" where
  "adjust_heap_descend cmp xs first len secondChild =
     (if secondChild < (len - 1) div 2
      then (let child = 2 * (secondChild + 1);
                child' = (if cmp (xs ! (first + child)) (xs ! (first + (child - 1)))
                          then child - 1 else child)
            in adjust_heap_descend cmp (xs[first + secondChild := xs ! (first + child')])
                 first len child')
      else (xs, secondChild))"
  by pat_completeness auto
termination
  by (relation "measure (\<lambda>(cmp, xs, first, len, secondChild). len - secondChild)")
     (auto simp: Let_def)

declare adjust_heap_descend.simps [simp del]

definition adjust_heap :: "('a \<Rightarrow> 'a \<Rightarrow> bool) \<Rightarrow> 'a list \<Rightarrow> nat \<Rightarrow> nat \<Rightarrow> nat \<Rightarrow> 'a \<Rightarrow> 'a list" where
  "adjust_heap cmp xs first holeIndex len val =
     (case adjust_heap_descend cmp xs first len holeIndex of
        (xs1, secondChild) \<Rightarrow>
          if len mod 2 = 0 \<and> secondChild = (len - 2) div 2
          then (let child = 2 * (secondChild + 1)
                in push_heap cmp (xs1[first + secondChild := xs1 ! (first + (child - 1))])
                     first (child - 1) holeIndex val)
          else push_heap cmp xs1 first secondChild holeIndex val)"

fun make_heap_loop :: "('a \<Rightarrow> 'a \<Rightarrow> bool) \<Rightarrow> 'a list \<Rightarrow> nat \<Rightarrow> nat \<Rightarrow> nat \<Rightarrow> 'a list" where
  "make_heap_loop cmp xs first len 0 = adjust_heap cmp xs first 0 len (xs ! first)"
| "make_heap_loop cmp xs first len (Suc parent) =
     make_heap_loop cmp (adjust_heap cmp xs first (Suc parent) len (xs ! (first + Suc parent)))
       first len parent"

definition make_heap :: "('a \<Rightarrow> 'a \<Rightarrow> bool) \<Rightarrow> 'a list \<Rightarrow> nat \<Rightarrow> nat \<Rightarrow> 'a list" where
  "make_heap cmp xs first lst =
     (if lst - first < 2 then xs
      else make_heap_loop cmp xs first (lst - first) ((lst - first - 2) div 2))"

definition pop_heap :: "('a \<Rightarrow> 'a \<Rightarrow> bool) \<Rightarrow> 'a list \<Rightarrow> nat \<Rightarrow> nat \<Rightarrow> nat \<Rightarrow> 'a list" where
  "pop_heap cmp xs first lst result =
     adjust_heap cmp (xs[result := xs ! first]) first 0 (lst - first) (xs ! result)"

function sort_heap :: "('a \<Rightarrow> 'a \<Rightarrow> bool) \<Rightarrow> 'a list \<Rightarrow> nat \<Rightarrow> nat \<Rightarrow> 'a list" where
  "sort_heap cmp xs first lst =
     (if lst - first > 1
      then sort_heap cmp (pop_heap cmp xs first (lst - 1) (lst - 1)) first (lst - 1)
      else xs)"
  by pat_completeness auto
termination
  by (relation "measure (\<lambda>(cmp, xs, first, lst). lst)") auto

declare sort_heap.simps [simp del]

function heap_select_loop :: "('a \<Rightarrow> 'a \<Rightarrow> bool) \<Rightarrow> 'a list \<Rightarrow> nat \<Rightarrow> nat \<Rightarrow> nat \<Rightarrow> nat
    \<Rightarrow> 'a list" where
  "heap_select_loop cmp xs first middle lst i =
     (if i < lst
      then heap_select_loop cmp
             (if cmp (xs ! i) (xs ! first) then pop_heap cmp xs first middle i else xs)
             first middle lst (Suc i)
      else xs)"
  by pat_completeness auto
termination
  by (relation "measure (\<lambda>(cmp, xs, first, middle, lst, i). lst - i)") auto

declare heap_select_loop.simps [simp del]

definition heap_select :: "('a \<Rightarrow> 'a \<Rightarrow> bool) \<Rightarrow> 'a list \<Rightarrow> nat \<Rightarrow> nat \<Rightarrow> nat \<Rightarrow> 'a list" where
  "heap_select cmp xs first middle lst =
     heap_select_loop cmp (make_heap cmp xs first middle) first middle lst middle"

definition partial_sort :: "('a \<Rightarrow> 'a \<Rightarrow> bool) \<Rightarrow> 'a list \<Rightarrow> nat \<Rightarrow> nat \<Rightarrow> nat \<Rightarrow> 'a list" where
  "partial_sort cmp xs first middle lst =
     sort_heap cmp (heap_select cmp xs first middle lst) first middle"

subsection \<open>Introsort\<close>

text \<open>
  \<^verbatim>\<open>__introsort_loop\<close>: while the range is longer than \<^verbatim>\<open>_S_threshold\<close>, partition it, sort the
  upper part by a recursive call and go on with the lower part; when the depth limit
  is used up, sort the range with the heap instead.
\<close>

definition S_threshold :: nat where
  "S_threshold = 16"

function introsort_loop :: "('a \<Rightarrow> 'a \<Rightarrow> bool) \<Rightarrow> 'a list \<Rightarrow> nat \<Rightarrow> nat \<Rightarrow> nat \<Rightarrow> 'a list option" where
  "introsort_loop cmp xs first lst depth_limit =
     (if lst - first > S_threshold
      then (case depth_limit of
              0 \<Rightarrow> Some (partial_sort cmp xs first lst lst)
            | Suc depth_limit' \<Rightarrow>
                (case unguarded_partition_pivot cmp xs first lst of
                   None \<Rightarrow> None
                 | Some (xs1, cut1) \<Rightarrow>
                     (case introsort_loop cmp xs1 cut1 lst depth_limit' of
                        None \<Rightarrow> None
                      | Some xs2 \<Rightarrow> introsort_loop cmp xs2 first cut1 depth_limit')))
      else Some xs)"
  by pat_completeness auto
termination
  by (relation "measure (\<lambda>(cmp, xs, first, lst, depth_limit). depth_limit)") auto

declare introsort_loop.simps [simp del]

subsection \<open>Insertion sort\<close>

text \<open>
  \<^verbatim>\<open>__unguarded_linear_insert\<close> moves the element at \<open>lst\<close> down while it compares before its
  predecessor.  \<^verbatim>\<open>__insertion_sort\<close> uses it for every element that does not compare before
  the first one; an element that does is put in front by \<^verbatim>\<open>std::move_backward\<close>
  (\<open>move_backward_insert\<close>).  An element is moved only past elements it compares before,
  so elements that compare equal keep their order.
\<close>

fun unguarded_linear_insert_loop :: "('a \<Rightarrow> 'a \<Rightarrow> bool) \<Rightarrow> 'a list \<Rightarrow> 'a \<Rightarrow> nat \<Rightarrow> 'a list option" where
  "unguarded_linear_insert_loop cmp xs val 0 = None"
| "unguarded_linear_insert_loop cmp xs val (Suc next) =
     (if cmp val (xs ! next)
      then unguarded_linear_insert_loop cmp (xs[Suc next := xs ! next]) val next
      else Some (xs[Suc next := val]))"

definition unguarded_linear_insert :: "('a \<Rightarrow> 'a \<Rightarrow> bool) \<Rightarrow> 'a list \<Rightarrow> nat \<Rightarrow> 'a list option" where
  "unguarded_linear_insert cmp xs lst =
     (if lst < length xs then unguarded_linear_insert_loop cmp xs (xs ! lst) lst else None)"

definition move_backward_insert :: "'a list \<Rightarrow> nat \<Rightarrow> nat \<Rightarrow> 'a list" where
  "move_backward_insert xs first i =
     take first xs @ xs ! i # take (i - first) (drop first xs) @ drop (Suc i) xs"

function insertion_sort_loop :: "('a \<Rightarrow> 'a \<Rightarrow> bool) \<Rightarrow> 'a list \<Rightarrow> nat \<Rightarrow> nat \<Rightarrow> nat
    \<Rightarrow> 'a list option" where
  "insertion_sort_loop cmp xs first lst i =
     (if i < lst
      then (if cmp (xs ! i) (xs ! first)
            then insertion_sort_loop cmp (move_backward_insert xs first i) first lst (Suc i)
            else (case unguarded_linear_insert cmp xs i of
                    None \<Rightarrow> None
                  | Some xs' \<Rightarrow> insertion_sort_loop cmp xs' first lst (Suc i)))
      else Some xs)"
  by pat_completeness auto
termination
  by (relation "measure (\<lambda>(cmp, xs, first, lst, i). lst - i)") auto

declare insertion_sort_loop.simps [simp del]

definition std_insertion_sort :: "('a \<Rightarrow> 'a \<Rightarrow> bool) \<Rightarrow> 'a list \<Rightarrow> nat \<Rightarrow> nat \<Rightarrow> 'a list option" where
  "std_insertion_sort cmp xs first lst =
     (if first = lst then Some xs else insertion_sort_loop cmp xs first lst (first + 1))"

function unguarded_insertion_sort :: "('a \<Rightarrow> 'a \<Rightarrow> bool) \<Rightarrow> 'a list \<Rightarrow> nat \<Rightarrow> nat
    \<Rightarrow> 'a list option" where
  "unguarded_insertion_sort cmp xs first lst =
     (if first < lst
      then (case unguarded_linear_insert cmp xs first of
              None \<Rightarrow> None
            | Some xs' \<Rightarrow> unguarded_insertion_sort cmp xs' (Suc first) lst)
      else Some xs)"
  by pat_completeness auto
termination
  by (relation "measure (\<lambda>(cmp, xs, first, lst). lst - first)") auto

declare unguarded_insertion_sort.simps [simp del]

definition final_insertion_sort :: "('a \<Rightarrow> 'a \<Rightarrow> bool) \<Rightarrow> 'a list \<Rightarrow> nat \<Rightarrow> nat \<Rightarrow> 'a list option" where
  "final_insertion_sort cmp xs first lst =
     (if lst - first > S_threshold
      then (case std_insertion_sort cmp xs first (first + S_threshold) of
              None \<Rightarrow> None
            | Some xs' \<Rightarrow> unguarded_insertion_sort cmp xs' (first + S_threshold) lst)
      else std_insertion_sort cmp xs first lst)"

text \<open>
  \<^verbatim>\<open>std::__sort\<close> on a range, and \<^verbatim>\<open>std::sort\<close> on the whole vector as \<^verbatim>\<open>computerPlay\<close> calls it:
  \<^verbatim>\<open>std::sort(outputs.begin(), outputs.end(), compareProbability())\<close>.
  \<open>libstdcxx_sort_outputs\<close> is the function handed to \<^verbatim>\<open>computerPlay\<close>; where the model of
  the library gives no result it leaves the vector as it is.
\<close>

definition std_sort_range :: "('a \<Rightarrow> 'a \<Rightarrow> bool) \<Rightarrow> 'a list \<Rightarrow> nat \<Rightarrow> nat \<Rightarrow> 'a list option" where
  "std_sort_range cmp xs first lst =
     (if first \<noteq> lst
      then (case introsort_loop cmp xs first lst (std_lg (lst - first) * 2) of
              None \<Rightarrow> None
            | Some xs' \<Rightarrow> final_insertion_sort cmp xs' first lst)
      else Some xs)"

definition libstdcxx_sort :: "('a \<Rightarrow> 'a \<Rightarrow> bool) \<Rightarrow> 'a list \<Rightarrow> 'a list option" where
  "libstdcxx_sort cmp xs = std_sort_range cmp xs 0 (length xs)"

definition libstdcxx_sort_outputs :: "Probability list \<Rightarrow> Probability list" where
  "libstdcxx_sort_outputs outputs =
     (case libstdcxx_sort compareProbability outputs of
        None \<Rightarrow> outputs
      | Some sorted_outputs \<Rightarrow> sorted_outputs)"

section \<open>Playouts on a board given by its colours\<close>

text \<open>
  The lemmas of this section follow a playout without evaluating the tree of the game:
  the colours of a board are a function from positions, the values of \<^verbatim>\<open>rand()\<close> are the
  coordinates of a list of cells, and \<^verbatim>\<open>checkWin\<close> is decided by a row the second player
  cannot cross.
\<close>

lemma adjacent_row_le: "adjacent p q \<Longrightarrow> m_row q \<le> Suc (m_row p)"
  using adjacent_cases[of "m_row p" "m_col p" q] by (auto simp: Position_rc)

lemma ctor_colour_at: "inb (HexGame_ctor N junk) p \<Longrightarrow> colour_at (HexGame_ctor N junk) p = WHITE"
  by (simp add: inb_def colour_at_def node_at_def HexGame_ctor_def Graph_tree_def Node_ctor_def)

text \<open>
  A chain of red cells from the first row to the last has a cell in every row, since
  adjacent cells are at most one row apart.  So red does not win on a board with a
  row that has no red cell.
\<close>

lemma row_blocks_red:
  assumes "wf_game g" "m_size g < 256" "k < m_size g"
    "\<forall>c<m_size g. colour_at g (Position_ctor k c) \<noteq> RED"
  shows "\<not> winning g RED"
proof
  assume "winning g RED"
  then obtain p q where p: "inb g p" "on_start RED p" "colour_at g p = RED"
    and r: "(p, q) \<in> (cstep g RED)\<^sup>*" and q: "inb g q" "on_end g RED q"
    by (auto simp: winning_def goal_reach_def)
  have off: "m_row x \<noteq> k" if "inb g x" "colour_at g x = RED" for x
  proof
    assume "m_row x = k"
    then have "x = Position_ctor k (m_col x)" using Position_rc[of x] by simp
    moreover have "m_col x < m_size g" using that(1) by (simp add: inb_def)
    ultimately show False using assms(4) that(2) by metis
  qed
  have "m_row q < k" using r
  proof (induction rule: rtrancl_induct)
    case base
    have "m_row p = 0" using p(2) by (simp add: on_start_def)
    moreover have "m_row p \<noteq> k" by (rule off[OF p(1,3)])
    ultimately show ?case by simp
  next
    case (step y z)
    from step.hyps(2) have a: "adjacent y z" and z: "inb g z" "colour_at g z = RED"
      by (simp_all add: cstep_def)
    from adjacent_row_le[OF a] step.IH off[OF z] show ?case by simp
  qed
  moreover have "m_row q = m_size g - 1"
    using q(2) wf_limits[OF assms(1) _ assms(2)] assms(3)
    by (simp add: on_end_def Position_ctor_sel)
  ultimately show False using assms(3) by simp
qed

text \<open>
  \<open>fill_cells\<close> is what the fill loop of \<^verbatim>\<open>testPlay\<close> does when \<^verbatim>\<open>rand()\<close> returns the coordinates
  of the cells \<open>ps\<close>, one after the other (\<open>rand_of ps\<close>): a free cell gets the colour of
  the player and the turn passes on, an occupied cell is passed over.  The loop uses up
  exactly these values when the last cell of the list is free until its turn comes and
  every free cell of the board is in the list (\<open>fillBoard_picks\<close>).
\<close>

fun fill_cells :: "HexGame \<Rightarrow> Player \<Rightarrow> Position list \<Rightarrow> HexGame \<times> Player" where
  "fill_cells g player [] = (g, player)"
| "fill_cells g player (p # ps) =
     (if colour_at g p = WHITE
      then fill_cells (colour_node g (convertPlayer player) p) (next_player player) ps
      else fill_cells g player ps)"

definition rand_of :: "Position list \<Rightarrow> nat list" where
  "rand_of ps = concat (map (\<lambda>p. [m_row p, m_col p]) ps)"

lemma fill_cells_keeps:
  assumes "wf_game g" "\<forall>p\<in>set ps. inb g p"
  shows "wf_game (fst (fill_cells g player ps)) \<and>
     m_size (fst (fill_cells g player ps)) = m_size g \<and>
     (traverse_clear g \<longrightarrow> traverse_clear (fst (fill_cells g player ps)))"
  using assms
proof (induction ps arbitrary: g player)
  case Nil
  then show ?case by simp
next
  case (Cons p ps)
  then have ib: "inb g p" by simp
  show ?case
  proof (cases "colour_at g p = WHITE")
    case True
    let ?g = "colour_node g (convertPlayer player) p"
    have w: "wf_game ?g" by (rule colour_node_wf[OF Cons.prems(1) ib])
    have i: "\<forall>q\<in>set ps. inb ?g q" using Cons.prems(2) by (simp add: colour_node_inb)
    from Cons.IH[OF w i, of "next_player player"] True
      traverse_clear_colour_node[OF Cons.prems(1) ib]
    show ?thesis by (simp add: colour_node_fields)
  next
    case False
    from Cons.IH[OF Cons.prems(1), of player] Cons.prems(2) False show ?thesis by simp
  qed
qed

lemma no_white_full:
  assumes "wf_game g" "counted g" "\<forall>x. inb g x \<longrightarrow> colour_at g x \<noteq> WHITE"
  shows "\<not> m_play_total g < m_play_maximum g"
  using exists_free[OF assms(1,2)] assms(3) by blast

lemma white_play_total:
  assumes "wf_game g" "counted g" "inb g p" "colour_at g p = WHITE"
  shows "m_play_total g < m_play_maximum g"
proof -
  from white_not_full[OF assms(1,3,4)]
  have "int (coloured g) < int (m_size g) * int (m_size g)"
    by (metis of_nat_less_iff of_nat_mult)
  then show ?thesis using assms(2) by (simp add: counted_def)
qed

lemma fillBoard_picks:
  assumes "wf_game g" "counted g" "\<forall>p\<in>set ps. inb g p" "ps \<noteq> []"
    "colour_at g (last ps) = WHITE" "last ps \<notin> set (butlast ps)"
    "\<forall>x. inb g x \<and> colour_at g x = WHITE \<longrightarrow> x \<in> set ps"
  shows "fillBoard (rand_of ps) g player (m_play_total g)
     = Inr (fst (fill_cells g player ps), snd (fill_cells g player ps), [])"
  using assms
proof (induction ps arbitrary: g player)
  case Nil
  then show ?case by simp
next
  case (Cons p ps)
  have ib: "inb g p" using Cons.prems(3) by simp
  have il: "inb g (last (p # ps))" using Cons.prems(3,4) last_in_set[of "p # ps"] by blast
  have lt: "m_play_total g < m_play_maximum g"
    by (rule white_play_total[OF Cons.prems(1,2) il Cons.prems(5)])
  have nz: "m_size g \<noteq> 0" using ib by (auto simp: inb_def)
  have md: "m_row p mod m_size g = m_row p" "m_col p mod m_size g = m_col p"
    using ib by (simp_all add: inb_def)
  note ap = addPlay_eq[OF Cons.prems(1) ib, of player]
  have r: "rand_of (p # ps) = m_row p # m_col p # rand_of ps" by (simp add: rand_of_def)
  show ?case
  proof (cases "colour_at g p = WHITE")
    case True
    let ?g = "colour_node g (convertPlayer player) p"
    have w: "wf_game ?g" by (rule colour_node_wf[OF Cons.prems(1) ib])
    have c: "counted ?g" by (rule counted_colour_node[OF Cons.prems(1) ib True Cons.prems(2)])
    have i: "\<forall>q\<in>set ps. inb ?g q" using Cons.prems(3) by (simp add: colour_node_inb)
    have tot: "m_play_total ?g = m_play_total g + 1" by (simp add: colour_node_fields)
    have col: "colour_at ?g x = (if x = p then convertPlayer player else colour_at g x)"
      if "inb g x" for x
      by (rule colour_node_colour_at[OF Cons.prems(1) ib that])
    show ?thesis
    proof (cases ps)
      case Nil
      have "colour_at ?g x \<noteq> WHITE" if "inb ?g x" for x
      proof -
        have x: "inb g x" using that by (simp add: colour_node_inb)
        show ?thesis using col[OF x] Cons.prems(7) x Nil
          by (auto simp: convertPlayer_not_WHITE)
      qed
      then have "\<not> m_play_total ?g < m_play_maximum ?g"
        using no_white_full[OF w c] by blast
      then have d: "fillBoard [] ?g (next_player player) (m_play_total g + 1)
          = Inr (?g, next_player player, [])"
        using fillBoard_done[of "m_play_total ?g" ?g "[]" "next_player player"] tot by simp
      show ?thesis
        unfolding r fillBoard_step using lt nz ap True d Nil
        by (simp add: md rand_of_def)
    next
      case (Cons a as)
      then have ne: "ps \<noteq> []" by simp
      have l: "last (p # ps) = last ps" using ne by simp
      have np: "last ps \<noteq> p" using Cons.prems(6) ne by auto
      have ilp: "inb g (last ps)" using il l by simp
      have c5: "colour_at ?g (last ps) = WHITE"
        using col[OF ilp] np Cons.prems(5) l by simp
      have c6: "last ps \<notin> set (butlast ps)" using Cons.prems(6) ne by auto
      have c7: "\<forall>x. inb ?g x \<and> colour_at ?g x = WHITE \<longrightarrow> x \<in> set ps"
      proof (intro allI impI)
        fix x assume a: "inb ?g x \<and> colour_at ?g x = WHITE"
        then have x: "inb g x" by (simp add: colour_node_inb)
        from a col[OF x] have "x \<noteq> p \<and> colour_at g x = WHITE"
          by (auto simp: convertPlayer_not_WHITE split: if_splits)
        with Cons.prems(7) x show "x \<in> set ps" by auto
      qed
      from Cons.IH[OF w c i ne c5 c6 c7, of "next_player player"]
      have "fillBoard (rand_of ps) ?g (next_player player) (m_play_total g + 1)
        = Inr (fst (fill_cells ?g (next_player player) ps),
               snd (fill_cells ?g (next_player player) ps), [])"
        unfolding tot .
      then show ?thesis
        unfolding r fillBoard_step using lt nz ap True
        by (simp add: md)
    qed
  next
    case False
    have ne: "ps \<noteq> []"
    proof
      assume "ps = []"
      then have "last (p # ps) = p" by simp
      with Cons.prems(5) False show False by simp
    qed
    have l: "last (p # ps) = last ps" using ne by simp
    have c5: "colour_at g (last ps) = WHITE" using Cons.prems(5) l by simp
    have c6: "last ps \<notin> set (butlast ps)" using Cons.prems(6) ne by auto
    have c7: "\<forall>x. inb g x \<and> colour_at g x = WHITE \<longrightarrow> x \<in> set ps"
      using Cons.prems(7) False by auto
    have i: "\<forall>q\<in>set ps. inb g q" using Cons.prems(3) by simp
    from Cons.IH[OF Cons.prems(1,2) i ne c5 c6 c7, of player]
    show ?thesis
      unfolding r fillBoard_step using lt nz ap False
      by (simp add: md)
  qed
qed

text \<open>
  The same two walks on the colours alone: \<open>fill_colours\<close> for the fill loop and \<open>paint\<close>
  for a list of calls of \<^verbatim>\<open>playInterface\<close>.
\<close>

fun fill_colours :: "(Position \<Rightarrow> NodeColour) \<Rightarrow> Player \<Rightarrow> Position list
    \<Rightarrow> Position \<Rightarrow> NodeColour" where
  "fill_colours f player [] = f"
| "fill_colours f player (p # ps) =
     (if f p = WHITE
      then fill_colours (f(p := convertPlayer player)) (next_player player) ps
      else fill_colours f player ps)"

lemma colour_at_fill_cells:
  assumes "wf_game g" "\<forall>p\<in>set ps. inb g p" "\<forall>x. inb g x \<longrightarrow> colour_at g x = f x" "inb g q"
  shows "colour_at (fst (fill_cells g player ps)) q = fill_colours f player ps q"
  using assms
proof (induction ps arbitrary: g f player)
  case Nil
  then show ?case by simp
next
  case (Cons p ps)
  have ib: "inb g p" using Cons.prems(2) by simp
  have fp: "colour_at g p = f p" using Cons.prems(3) ib by simp
  show ?case
  proof (cases "f p = WHITE")
    case True
    let ?g = "colour_node g (convertPlayer player) p"
    have w: "wf_game ?g" by (rule colour_node_wf[OF Cons.prems(1) ib])
    have i: "\<forall>q\<in>set ps. inb ?g q" using Cons.prems(2) by (simp add: colour_node_inb)
    have c: "\<forall>x. inb ?g x \<longrightarrow> colour_at ?g x = (f(p := convertPlayer player)) x"
    proof (intro allI impI)
      fix x assume "inb ?g x"
      then have x: "inb g x" by (simp add: colour_node_inb)
      from colour_node_colour_at[OF Cons.prems(1) ib x] Cons.prems(3) x
      show "colour_at ?g x = (f(p := convertPlayer player)) x" by simp
    qed
    have q: "inb ?g q" using Cons.prems(4) by (simp add: colour_node_inb)
    from Cons.IH[OF w i c q, of "next_player player"] True fp show ?thesis
      by (simp add: fun_upd_def)
  next
    case False
    have i: "\<forall>q\<in>set ps. inb g q" using Cons.prems(2) by simp
    from Cons.IH[OF Cons.prems(1) i Cons.prems(3,4), of player] False fp show ?thesis by simp
  qed
qed

fun paint :: "nat \<Rightarrow> (Position \<Rightarrow> NodeColour) \<Rightarrow> (Player \<times> Coordinate \<times> Coordinate) list
    \<Rightarrow> Position \<Rightarrow> NodeColour" where
  "paint n f [] = f"
| "paint n f ((player, row, col) # moves) =
     paint n (if row < n \<and> col < n \<and> f (Position_ctor row col) = WHITE
              then f(Position_ctor row col := convertPlayer player) else f) moves"

lemma colour_at_board_after:
  assumes "wf_game g" "\<forall>x. inb g x \<longrightarrow> colour_at g x = f x" "inb g q"
  shows "colour_at (board_after g moves) q = paint (m_size g) f moves q"
  using assms
proof (induction g moves arbitrary: f rule: board_after.induct)
  case (1 g)
  then show ?case by simp
next
  case (2 g player row col moves)
  let ?p = "Position_ctor row col"
  note pe = playInterface_eq[OF "2.prems"(1), of player row col]
  show ?case
  proof (cases "row < m_size g \<and> col < m_size g \<and> colour_at g ?p = WHITE")
    case True
    let ?g = "colour_node g (convertPlayer player) ?p"
    have ib: "inb g ?p" using True by (simp add: inb_def Position_ctor_sel)
    have pi: "playInterface g player row col = Inr (True, ?g)" using pe True by simp
    have w: "wf_game ?g" by (rule colour_node_wf[OF "2.prems"(1) ib])
    have c: "\<forall>x. inb ?g x \<longrightarrow> colour_at ?g x = (f(?p := convertPlayer player)) x"
    proof (intro allI impI)
      fix x assume "inb ?g x"
      then have x: "inb g x" by (simp add: colour_node_inb)
      from colour_node_colour_at[OF "2.prems"(1) ib x] "2.prems"(2) x
      show "colour_at ?g x = (f(?p := convertPlayer player)) x" by simp
    qed
    have q: "inb ?g q" using "2.prems"(3) by (simp add: colour_node_inb)
    have fp: "f ?p = WHITE" using True "2.prems"(2) ib by simp
    from "2.IH"[OF pi refl w c q] True fp show ?thesis
      by (simp add: pi colour_node_fields fun_upd_def)
  next
    case False
    then have pi: "playInterface g player row col = Inr (False, g)" using pe by simp
    have nf: "\<not> (row < m_size g \<and> col < m_size g \<and> f ?p = WHITE)"
    proof
      assume a: "row < m_size g \<and> col < m_size g \<and> f ?p = WHITE"
      then have "inb g ?p" by (simp add: inb_def Position_ctor_sel)
      with "2.prems"(2) a False show False by simp
    qed
    from "2.IH"[OF pi refl "2.prems"] nf show ?thesis by (auto simp: pi)
  qed
qed

text \<open>
  A candidate all of whose playouts are lost.  When the fill of the cells \<open>ps\<close> leaves a
  row without a red cell, each of the 150 playouts of \<^verbatim>\<open>testPlay\<close> that draws the
  coordinates of \<open>ps\<close> ends without a win, and \<^verbatim>\<open>testPlay\<close> returns \<^verbatim>\<open>0 / 151\<close>.
\<close>

lemma candidate_lost:
  assumes "wf_game g" "counted g" "traverse_clear g" "2 \<le> m_size g" "m_size g \<le> 5"
    "\<forall>x. inb g x \<longrightarrow> colour_at g x = f x"
    "inb g p" "f p = WHITE"
    "\<forall>q\<in>set ps. inb g q" "ps \<noteq> []" "(f(p := RED)) (last ps) = WHITE"
    "last ps \<notin> set (butlast ps)"
    "\<forall>x. inb g x \<and> (f(p := RED)) x = WHITE \<longrightarrow> x \<in> set ps"
    "k < m_size g"
    "\<forall>c<m_size g. fill_colours (f(p := RED)) SECOND ps (Position_ctor k c) \<noteq> RED"
  shows "testPlay (concat (replicate 150 (rand_of ps))) g (m_row p) (m_col p)
         = Inr (Probability_ctor 0 (m_row p) (m_col p), colour_node g RED p, [])"
proof -
  let ?g0 = "colour_node g RED p"
  let ?f0 = "f(p := RED)"
  have cp: "colour_at g p = WHITE" using assms(6,7,8) by simp
  have ap: "addPlay g SECOND (m_row p) (m_col p) = Inr (True, ?g0)"
    using addPlay_eq[OF assms(1,7), of SECOND] cp by (simp add: convertPlayer_def)
  have w0: "wf_game ?g0" by (rule colour_node_wf[OF assms(1,7)])
  have c0: "counted ?g0"
    using counted_colour_node[OF assms(1,7) cp assms(2), of SECOND]
    by (simp add: convertPlayer_def)
  have t0: "traverse_clear ?g0" by (rule traverse_clear_colour_node[OF assms(1,7,3)])
  have s0: "m_size ?g0 = m_size g" by (simp add: colour_node_fields)
  have col0: "\<forall>x. inb ?g0 x \<longrightarrow> colour_at ?g0 x = ?f0 x"
  proof (intro allI impI)
    fix x assume "inb ?g0 x"
    then have x: "inb g x" by (simp add: colour_node_inb)
    from colour_node_colour_at[OF assms(1,7) x] assms(6) x
    show "colour_at ?g0 x = ?f0 x" by simp
  qed
  have i0: "\<forall>q\<in>set ps. inb ?g0 q" using assms(9) by (simp add: colour_node_inb)
  have il: "inb ?g0 (last ps)" using i0 assms(10) last_in_set by blast
  have l0: "colour_at ?g0 (last ps) = WHITE" using col0 il assms(11) by simp
  have a0: "\<forall>x. inb ?g0 x \<and> colour_at ?g0 x = WHITE \<longrightarrow> x \<in> set ps"
  proof (intro allI impI)
    fix x assume a: "inb ?g0 x \<and> colour_at ?g0 x = WHITE"
    then have x: "inb g x" by (simp add: colour_node_inb)
    from a mp[OF spec[OF col0, of x]] have "?f0 x = WHITE" by simp
    with assms(13) x show "x \<in> set ps" by blast
  qed
  let ?g1 = "fst (fill_cells ?g0 SECOND ps)"
  have fb: "fillBoard (rand_of ps) ?g0 SECOND (m_play_total ?g0)
      = Inr (?g1, snd (fill_cells ?g0 SECOND ps), [])"
    by (rule fillBoard_picks[OF w0 c0 i0 assms(10) l0 assms(12) a0])
  note k1 = fill_cells_keeps[OF w0 i0, of SECOND]
  have w1: "wf_game ?g1" and s1: "m_size ?g1 = m_size g" and t1: "traverse_clear ?g1"
    using k1 t0 s0 by simp_all
  have row: "\<forall>c<m_size ?g1. colour_at ?g1 (Position_ctor k c) \<noteq> RED"
  proof (intro allI impI)
    fix c assume "c < m_size ?g1"
    then have "inb ?g0 (Position_ctor k c)"
      using assms(14) s1 s0 by (simp add: inb_def Position_ctor_sel)
    from colour_at_fill_cells[OF w0 i0 col0 this, of SECOND] assms(15) \<open>c < m_size ?g1\<close> s1
    show "colour_at ?g1 (Position_ctor k c) \<noteq> RED" by (simp add: fun_upd_def)
  qed
  have sz: "m_size ?g1 < 256" "2 \<le> m_size ?g1" "k < m_size ?g1"
    using assms(4,5,14) s1 by simp_all
  have nw: "\<not> winning ?g1 RED" by (rule row_blocks_red[OF w1 sz(1,3) row])
  have cw: "checkWin ?g1 SECOND = Inr (False, ?g1)"
    using checkWin_winning[OF w1 sz(2,1) t1, of SECOND] nw by (simp add: convertPlayer_def)
  have pl: "play_limit ?g0 = int 150"
    using assms(5) s0 by (simp add: play_limit_def cn_MAXIMUM_PLAY_LIMIT_def)
  from testPlay_repeat[OF assms(1) ap fb cw pl] show ?thesis by simp
qed

text \<open>
  \<open>lost_check\<close> collects the hypotheses of \<open>candidate_lost\<close> about the colours \<open>f\<close>, the drawn
  cells \<open>ps\<close> and the candidate \<open>p\<close> in a form that can be evaluated.
\<close>

definition cells :: "nat \<Rightarrow> Position list" where
  "cells n = concat (map (\<lambda>row. map (Position_ctor row) [0..<n]) [0..<n])"

lemma set_cells: "set (cells n) = {p. m_row p < n \<and> m_col p < n}"
proof (rule set_eqI)
  fix p :: Position
  have rc: "Position_ctor (m_row p) (m_col p) = p" by (rule Position_rc)
  show "p \<in> set (cells n) \<longleftrightarrow> p \<in> {p. m_row p < n \<and> m_col p < n}"
  proof
    assume "p \<in> set (cells n)"
    then obtain r c where "r < n" "c < n" "p = Position_ctor r c"
      unfolding cells_def by auto
    then show "p \<in> {p. m_row p < n \<and> m_col p < n}" by (simp add: Position_ctor_sel)
  next
    assume "p \<in> {p. m_row p < n \<and> m_col p < n}"
    then have r: "m_row p \<in> {0..<n}" and c: "m_col p \<in> {0..<n}" by simp_all
    have "Position_ctor (m_row p) (m_col p) \<in> Position_ctor (m_row p) ` {0..<n}"
      using c by (rule imageI)
    then have "Position_ctor (m_row p) (m_col p) \<in> set (cells n)"
      unfolding cells_def using r by auto
    then show "p \<in> set (cells n)" by (simp add: rc)
  qed
qed

lemma free_cells_filter:
  assumes "\<forall>x. inb g x \<longrightarrow> colour_at g x = f x"
  shows "free_cells g = filter (\<lambda>p. f p = WHITE) (cells (m_size g))"
proof -
  have "map (Position_ctor row) (filter (\<lambda>col. colour_at g (Position_ctor row col) = WHITE)
          [0..<m_size g])
      = filter (\<lambda>p. f p = WHITE) (map (Position_ctor row) [0..<m_size g])"
    if "row < m_size g" for row
  proof -
    have "colour_at g (Position_ctor row col) = f (Position_ctor row col)"
      if "col \<in> set [0..<m_size g]" for col
      using assms that \<open>row < m_size g\<close> by (simp add: inb_def Position_ctor_sel)
    then have "filter (\<lambda>col. colour_at g (Position_ctor row col) = WHITE) [0..<m_size g]
        = filter (\<lambda>col. f (Position_ctor row col) = WHITE) [0..<m_size g]"
      by (intro filter_cong) simp_all
    then show ?thesis by (simp add: filter_map comp_def)
  qed
  then have m: "map (\<lambda>row. map (Position_ctor row)
        (filter (\<lambda>col. colour_at g (Position_ctor row col) = WHITE) [0..<m_size g]))
        [0..<m_size g]
      = map (\<lambda>row. filter (\<lambda>p. f p = WHITE) (map (Position_ctor row) [0..<m_size g]))
        [0..<m_size g]"
    by (intro map_cong) simp_all
  have c: "filter (\<lambda>p. f p = WHITE) (cells (m_size g))
      = concat (map (\<lambda>row. filter (\<lambda>p. f p = WHITE) (map (Position_ctor row) [0..<m_size g]))
        [0..<m_size g])"
    unfolding cells_def by (simp add: filter_concat comp_def)
  show ?thesis
    unfolding free_cells_def c by (rule arg_cong[where f = concat, OF m])
qed

definition lost_check :: "nat \<Rightarrow> (Position \<Rightarrow> NodeColour) \<Rightarrow> Position list \<Rightarrow> Position \<Rightarrow> bool" where
  "lost_check n f ps p =
     (m_row p < n \<and> m_col p < n \<and> f p = WHITE \<and>
      list_all (\<lambda>q. m_row q < n \<and> m_col q < n) ps \<and> ps \<noteq> [] \<and>
      (f(p := RED)) (last ps) = WHITE \<and> last ps \<notin> set (butlast ps) \<and>
      list_all (\<lambda>x. (f(p := RED)) x = WHITE \<longrightarrow> x \<in> set ps) (cells n) \<and>
      list_ex (\<lambda>k. list_all (\<lambda>c. fill_colours (f(p := RED)) SECOND ps (Position_ctor k c) \<noteq> RED)
                            [0..<n]) [0..<n])"

lemma lost_check_testPlay:
  assumes "wf_game g" "counted g" "traverse_clear g" "2 \<le> m_size g" "m_size g \<le> 5"
    "\<forall>x. inb g x \<longrightarrow> colour_at g x = f x" "lost_check (m_size g) f ps p"
  shows "testPlay (concat (replicate 150 (rand_of ps))) g (m_row p) (m_col p)
         = Inr (Probability_ctor 0 (m_row p) (m_col p), colour_node g RED p, [])"
proof -
  note c = assms(7)[unfolded lost_check_def]
  have ib: "inb g p" and fp: "f p = WHITE" using c by (simp_all add: inb_def)
  have ps: "\<forall>q\<in>set ps. inb g q" using c by (simp add: list_all_iff inb_def)
  have ne: "ps \<noteq> []" and l: "(f(p := RED)) (last ps) = WHITE"
    and d: "last ps \<notin> set (butlast ps)" using c by simp_all
  have "\<forall>x\<in>set (cells (m_size g)). (f(p := RED)) x = WHITE \<longrightarrow> x \<in> set ps"
    using c by (simp add: list_all_iff)
  then have a: "\<forall>x. inb g x \<and> (f(p := RED)) x = WHITE \<longrightarrow> x \<in> set ps"
    unfolding set_cells by (simp add: inb_def)
  from c obtain k where k: "k < m_size g"
    "\<forall>c<m_size g. fill_colours (f(p := RED)) SECOND ps (Position_ctor k c) \<noteq> RED"
    by (auto simp: list_ex_iff list_all_iff)
  show ?thesis
    by (rule candidate_lost[OF assms(1-6) ib fp ps ne l d a k])
qed

lemma collect_lost:
  assumes "\<forall>p\<in>set ps. testPlay_threaded (rnd_for p) g (m_row p) (m_col p)
             = Inr (Probability_ctor 0 (m_row p) (m_col p))"
  shows "collect (map rnd_for ps) g ps outputs
     = Inr (g, outputs @ map (\<lambda>p. Probability_ctor 0 (m_row p) (m_col p)) ps, [])"
  using assms by (induction ps arbitrary: outputs) simp_all

text \<open>
  One playout evaluated on the game itself: the candidate is placed, the values \<open>xs\<close> fill
  the board and are used up, and \<^verbatim>\<open>checkWin\<close> for the second player gives \<open>won\<close>.
\<close>

definition playout_result :: "HexGame \<Rightarrow> nat list \<Rightarrow> Coordinate \<Rightarrow> Coordinate \<Rightarrow> bool \<Rightarrow> bool" where
  "playout_result g xs row col won =
     (case addPlay g SECOND row col of
        Inl e \<Rightarrow> False
      | Inr (ok, g0) \<Rightarrow>
          (case fillBoard xs g0 SECOND (m_play_total g0) of
             Inl e \<Rightarrow> False
           | Inr (g1, player1, rest) \<Rightarrow>
               rest = [] \<and>
               (case checkWin g1 SECOND of Inl e \<Rightarrow> False | Inr (w, g2) \<Rightarrow> w = won)))"

lemma playout_result_testPlay:
  assumes "wf_game g" "m_size g \<le> 5" "playout_result g xs row col won"
  shows "\<exists>g0. testPlay (concat (replicate 150 xs)) g row col
     = Inr (Probability_ctor (if won then 150 / 151 else 0) row col, g0, [])"
proof -
  from assms(3) obtain ok g0 where ap: "addPlay g SECOND row col = Inr (ok, g0)"
    unfolding playout_result_def by (cases "addPlay g SECOND row col") auto
  from assms(3) ap obtain g1 player1 where
    fb: "fillBoard xs g0 SECOND (m_play_total g0) = Inr (g1, player1, [])"
    and r: "(case checkWin g1 SECOND of Inl e \<Rightarrow> False | Inr (w, g2) \<Rightarrow> w = won)"
    unfolding playout_result_def
    by (cases "fillBoard xs g0 SECOND (m_play_total g0)") auto
  from r obtain g2 where cw: "checkWin g1 SECOND = Inr (won, g2)"
    by (cases "checkWin g1 SECOND") auto
  have "m_size g0 = m_size g" by (rule addPlay_keeps(3)[OF assms(1) ap])
  then have pl: "play_limit g0 = int 150"
    using assms(2) by (simp add: play_limit_def cn_MAXIMUM_PLAY_LIMIT_def)
  from testPlay_repeat[OF assms(1) ap fb cw pl] show ?thesis by auto
qed

lemma testPlay_threaded_result:
  assumes "wf_game g" "m_size g \<le> 5" "playout_result g xs row col won"
  shows "testPlay_threaded (replicate 10 (concat (replicate 150 xs))) g row col
     = Inr (Probability_ctor (if won then 150 / 151 else 0) row col)"
proof -
  from playout_result_testPlay[OF assms] obtain g0 where
    "testPlay (concat (replicate 150 xs)) g row col
       = Inr (Probability_ctor (if won then 150 / 151 else 0) row col, g0, [])" by blast
  then show ?thesis by (rule testPlay_threaded_replicate)
qed

section \<open>The candidate that \<^verbatim>\<open>computerPlay\<close> takes\<close>

subsection \<open>A board on which the estimates differ\<close>

text \<open>
  \<open>board_mid\<close> is the board of size 3 after five alternating moves, the second player to
  move:

  \<^verbatim>\<open>R G G\<close>

  \<^verbatim>\<open>. G R\<close>

  \<^verbatim>\<open>. . .\<close>

  Red wins exactly when it gets both (1,0) and (2,0).  With the values of \<open>rand_mid\<close> the
  candidate (2,0) wins every playout (red draws (1,0) first) and the candidates (1,0),
  (2,1) and (2,2) lose every playout (green draws (2,0) or (1,0)).
\<close>

definition board_mid :: HexGame where
  "board_mid = board_after (HexGame_ctor 3 (\<lambda>row col. False))
     [(FIRST, 0, 1), (SECOND, 0, 0), (FIRST, 0, 2), (SECOND, 1, 2), (FIRST, 1, 1)]"

definition rand_mid :: "nat list list list" where
  "rand_mid = [replicate 10 (concat (replicate 150 [2, 1, 2, 0, 2, 2])),
               replicate 10 (concat (replicate 150 [1, 0, 2, 1, 2, 2])),
               replicate 10 (concat (replicate 150 [2, 0, 1, 0, 2, 2])),
               replicate 10 (concat (replicate 150 [2, 0, 1, 0, 2, 1]))]"

lemma wf_board_mid: "wf_game board_mid" "m_size board_mid = 3" "counted board_mid"
proof -
  note k = board_after_keeps[OF wf_HexGame_ctor, of 3 "\<lambda>row col. False"
      "[(FIRST, 0, 1), (SECOND, 0, 0), (FIRST, 0, 2), (SECOND, 1, 2), (FIRST, 1, 1)]",
      folded board_mid_def]
  show "wf_game board_mid" "m_size board_mid = 3" "counted board_mid"
    using k counted_ctor[of 3 "\<lambda>row col. False"]
    by (simp_all only: size_ctor)
qed

lemma free_cells_board_mid:
  "free_cells board_mid
     = [Position_ctor 1 0, Position_ctor 2 0, Position_ctor 2 1, Position_ctor 2 2]"
  by code_simp

lemma playouts_board_mid:
  "playout_result board_mid [2, 1, 2, 0, 2, 2] 1 0 False"
  "playout_result board_mid [1, 0, 2, 1, 2, 2] 2 0 True"
  "playout_result board_mid [2, 0, 1, 0, 2, 2] 2 1 False"
  "playout_result board_mid [2, 0, 1, 0, 2, 1] 2 2 False"
  by code_simp+

definition outputs_mid :: "Probability list" where
  "outputs_mid = [Probability_ctor 0 1 0, Probability_ctor (150 / 151) 2 0,
                  Probability_ctor 0 2 1, Probability_ctor 0 2 2]"

lemma collect_board_mid:
  "collect rand_mid board_mid (free_cells board_mid) [] = Inr (board_mid, outputs_mid, [])"
proof -
  have s: "m_size board_mid \<le> 5" by (simp add: wf_board_mid(2))
  note t = playouts_board_mid[THEN testPlay_threaded_result[OF wf_board_mid(1) s]]
  show ?thesis
    unfolding free_cells_board_mid rand_mid_def outputs_mid_def
    using t by (simp del: One_nat_def add: Position_ctor_sel)
qed

lemma rows_board_mid:
  "computerPlay_rows rand_mid board_mid (m_tree board_mid) (m_play_total board_mid) 0 []
     = Inr (board_mid, outputs_mid, [])"
  using collect_board_mid
  by (simp add: computerPlay_rows_collect[OF wf_board_mid(1)] free_cells_def)

lemma board_mid_free_2_0: "colour_at board_mid (Position_ctor 2 0) = WHITE"
  by code_simp

lemma computerPlay_board_mid:
  "computerPlay insertion_sort rand_mid board_mid
     = Inr (colour_node board_mid RED (Position_ctor 2 0))"
proof -
  have ap: "addPlay board_mid SECOND 2 0
      = Inr (True, colour_node board_mid RED (Position_ctor 2 0))"
    using addPlay_free[OF wf_board_mid(1) _ _ board_mid_free_2_0, of SECOND]
    by (simp add: wf_board_mid(2) convertPlayer_def)
  show ?thesis
    unfolding computerPlay_collect[OF wf_board_mid(1)] collect_board_mid
    by (simp del: One_nat_def add: insertion_sort_def outputs_mid_def Probability_ctor_sel ap)
qed

subsection \<open>A board on which twenty candidates tie\<close>

text \<open>
  \<open>board_5\<close> is the board of size 5 after five alternating moves, the second player to
  move:

  \<^verbatim>\<open>R . . . .\<close>

  \<^verbatim>\<open>. . . . .\<close>

  \<^verbatim>\<open>. G G G .\<close>

  \<^verbatim>\<open>. . . . .\<close>

  \<^verbatim>\<open>. . . . R\<close>

  In \<open>rand_5\<close> every thread of every candidate draws, in each of its 150 playouts, the
  coordinates \<open>draws_5\<close> of the cells \<open>picks_5\<close>; the last candidate, (4,3), is the last of
  these cells and its threads draw the list without it.  The candidate's own cell is
  passed over when it is drawn.  When the candidate is not among the first four cells
  drawn, green gets (2,0) and (2,4) and holds the whole row 2.  When it is, the turns
  are shifted by one from the fifth cell on and green gets the whole row 1.  So every
  playout of every candidate is lost and all twenty candidates get the value
  \<^verbatim>\<open>0 / 151 = 0\<close>, in the ten threads alike, so that the averages are equal as \<^verbatim>\<open>float\<close>
  values too.  The first value of each pair is the row, as in \<open>fillBoard\<close>; where the
  second \<^verbatim>\<open>rand()\<close> of the argument list is evaluated first, the same run is drawn with
  the two values of each pair exchanged.
\<close>

definition moves_5 :: "(Player \<times> Coordinate \<times> Coordinate) list" where
  "moves_5 = [(FIRST, 2, 1), (SECOND, 0, 0), (FIRST, 2, 2), (SECOND, 4, 4), (FIRST, 2, 3)]"

definition board_5 :: HexGame where
  "board_5 = board_after (HexGame_ctor 5 (\<lambda>row col. False)) moves_5"

definition colours_5 :: "Position \<Rightarrow> NodeColour" where
  "colours_5 = paint 5 (\<lambda>p. WHITE) moves_5"

definition picks_5 :: "Position list" where
  "picks_5 =
     [Position_ctor 0 1, Position_ctor 2 0, Position_ctor 0 2, Position_ctor 2 4,
      Position_ctor 1 0, Position_ctor 0 3, Position_ctor 1 1, Position_ctor 0 4,
      Position_ctor 1 2, Position_ctor 3 0, Position_ctor 1 3, Position_ctor 3 1,
      Position_ctor 1 4, Position_ctor 3 2, Position_ctor 3 3, Position_ctor 3 4,
      Position_ctor 4 0, Position_ctor 4 1, Position_ctor 4 2, Position_ctor 4 3]"

definition picks_for :: "Position \<Rightarrow> Position list" where
  "picks_for p = (if p = last picks_5 then butlast picks_5 else picks_5)"

definition candidates_5 :: "Position list" where
  "candidates_5 =
     [Position_ctor 0 1, Position_ctor 0 2, Position_ctor 0 3, Position_ctor 0 4,
      Position_ctor 1 0, Position_ctor 1 1, Position_ctor 1 2, Position_ctor 1 3,
      Position_ctor 1 4, Position_ctor 2 0, Position_ctor 2 4, Position_ctor 3 0,
      Position_ctor 3 1, Position_ctor 3 2, Position_ctor 3 3, Position_ctor 3 4,
      Position_ctor 4 0, Position_ctor 4 1, Position_ctor 4 2, Position_ctor 4 3]"

definition draws_5 :: "nat list" where
  "draws_5 = [0, 1, 2, 0, 0, 2, 2, 4, 1, 0, 0, 3, 1, 1, 0, 4, 1, 2, 3, 0,
              1, 3, 3, 1, 1, 4, 3, 2, 3, 3, 3, 4, 4, 0, 4, 1, 4, 2, 4, 3]"

definition rand_5 :: "nat list list list" where
  "rand_5 = replicate 19 (replicate 10 (concat (replicate 150 draws_5)))
            @ [replicate 10 (concat (replicate 150 (take 38 draws_5)))]"

definition outputs_5 :: "Probability list" where
  "outputs_5 =
     [Probability_ctor 0 0 1, Probability_ctor 0 0 2, Probability_ctor 0 0 3,
      Probability_ctor 0 0 4, Probability_ctor 0 1 0, Probability_ctor 0 1 1,
      Probability_ctor 0 1 2, Probability_ctor 0 1 3, Probability_ctor 0 1 4,
      Probability_ctor 0 2 0, Probability_ctor 0 2 4, Probability_ctor 0 3 0,
      Probability_ctor 0 3 1, Probability_ctor 0 3 2, Probability_ctor 0 3 3,
      Probability_ctor 0 3 4, Probability_ctor 0 4 0, Probability_ctor 0 4 1,
      Probability_ctor 0 4 2, Probability_ctor 0 4 3]"

lemma filter_colours_5: "filter (\<lambda>p. colours_5 p = WHITE) (cells 5) = candidates_5"
  by code_simp

lemma lost_5: "list_all (\<lambda>p. lost_check 5 colours_5 (picks_for p) p) candidates_5"
  by code_simp

lemma wf_board_5: "wf_game board_5" "m_size board_5 = 5" "counted board_5"
  "traverse_clear board_5"
proof -
  note k = board_after_keeps[OF wf_HexGame_ctor, of 5 "\<lambda>row col. False" moves_5,
      folded board_5_def]
  show "wf_game board_5" "m_size board_5 = 5" "counted board_5" "traverse_clear board_5"
    using k counted_ctor[of 5 "\<lambda>row col. False"] traverse_clear_ctor[of 5]
    by (simp_all only: size_ctor)
qed

lemma reachable_board_5: "reachable board_5"
  unfolding board_5_def by (rule reachable_board_after) (simp add: reachable.construct)

lemma colour_at_board_5: "\<forall>x. inb board_5 x \<longrightarrow> colour_at board_5 x = colours_5 x"
proof (intro allI impI)
  fix x assume "inb board_5 x"
  then have ib: "inb (HexGame_ctor 5 (\<lambda>row col. False)) x"
    by (simp add: inb_def wf_board_5(2) size_ctor)
  have "\<forall>y. inb (HexGame_ctor 5 (\<lambda>row col. False)) y \<longrightarrow>
      colour_at (HexGame_ctor 5 (\<lambda>row col. False)) y = (\<lambda>p. WHITE) y"
    by (simp add: ctor_colour_at)
  from colour_at_board_after[OF wf_HexGame_ctor this ib, of moves_5]
  show "colour_at board_5 x = colours_5 x"
    by (simp add: board_5_def colours_5_def size_ctor)
qed

lemma free_cells_board_5: "free_cells board_5 = candidates_5"
  using free_cells_filter[OF colour_at_board_5] filter_colours_5
  by (simp add: wf_board_5(2))

lemma rand_of_picks_5: "rand_of picks_5 = draws_5" "rand_of (butlast picks_5) = take 38 draws_5"
  by (simp_all add: rand_of_def picks_5_def draws_5_def Position_ctor_sel)

lemma testPlay_board_5:
  assumes "p \<in> set candidates_5"
  shows "testPlay (concat (replicate 150 (rand_of (picks_for p)))) board_5 (m_row p) (m_col p)
         = Inr (Probability_ctor 0 (m_row p) (m_col p), colour_node board_5 RED p, [])"
proof -
  have "lost_check (m_size board_5) colours_5 (picks_for p) p"
    using lost_5 assms by (simp add: list_all_iff wf_board_5(2))
  from lost_check_testPlay[OF wf_board_5(1,3,4) _ _ colour_at_board_5 this]
  show ?thesis by (simp add: wf_board_5(2))
qed

lemma testPlay_threaded_board_5:
  assumes "p \<in> set candidates_5"
  shows "testPlay_threaded (replicate 10 (concat (replicate 150 (rand_of (picks_for p)))))
           board_5 (m_row p) (m_col p)
         = Inr (Probability_ctor 0 (m_row p) (m_col p))"
  by (rule testPlay_threaded_replicate[OF testPlay_board_5[OF assms]])

lemma map_candidates_5:
  "map (\<lambda>p. if p = Position_ctor 4 3 then b else a) candidates_5 = replicate 19 a @ [b]"
  by (simp add: candidates_5_def Position_ctor_def eval_nat_numeral)

lemma rand_5_eq:
  "rand_5 = map (\<lambda>p. replicate 10 (concat (replicate 150 (rand_of (picks_for p))))) candidates_5"
proof -
  have l: "last picks_5 = Position_ctor 4 3" by (simp add: picks_5_def)
  have "replicate 10 (concat (replicate 150 (rand_of (picks_for p))))
      = (if p = Position_ctor 4 3
         then replicate 10 (concat (replicate 150 (take 38 draws_5)))
         else replicate 10 (concat (replicate 150 draws_5)))" for p
  proof (cases "p = Position_ctor 4 3")
    case True
    then have "picks_for p = butlast picks_5" by (simp add: picks_for_def l)
    then show ?thesis using True by (simp only: rand_of_picks_5 if_True refl)
  next
    case False
    then have "picks_for p = picks_5" by (simp add: picks_for_def l)
    then show ?thesis using False by (simp only: rand_of_picks_5 if_False refl)
  qed
  then show ?thesis unfolding rand_5_def map_candidates_5[symmetric] by (simp only:)
qed

lemma outputs_5_eq:
  "outputs_5 = map (\<lambda>p. Probability_ctor 0 (m_row p) (m_col p)) candidates_5"
  by (simp add: outputs_5_def candidates_5_def Position_ctor_sel)

lemma collect_board_5:
  "collect rand_5 board_5 (free_cells board_5) [] = Inr (board_5, outputs_5, [])"
  unfolding free_cells_board_5 rand_5_eq outputs_5_eq
  using collect_lost[of candidates_5 _ board_5 "[]"] testPlay_threaded_board_5
  by simp

lemma rows_board_5:
  "computerPlay_rows rand_5 board_5 (m_tree board_5) (m_play_total board_5) 0 []
     = Inr (board_5, outputs_5, [])"
  using collect_board_5
  by (simp add: computerPlay_rows_collect[OF wf_board_5(1)] free_cells_def)

text \<open>
  \<^verbatim>\<open>std::sort\<close> on the twenty tied outputs.  The range is longer than 16, so it is
  partitioned once: \<^verbatim>\<open>__move_median_to_first\<close> swaps the middle element, \<^verbatim>\<open>outputs[10]\<close>, to
  the front, and \<^verbatim>\<open>__unguarded_partition\<close>, which stops at elements equal to the pivot,
  swaps the elements 1 and 19, 2 and 18, up to 9 and 11.  The final insertion sort
  moves nothing.  The candidate in front is the eleventh, (2,4).
\<close>

lemma sorted_outputs_5:
  "map position_of (libstdcxx_sort_outputs outputs_5) =
     [Position_ctor 2 4, Position_ctor 4 3, Position_ctor 4 2, Position_ctor 4 1,
      Position_ctor 4 0, Position_ctor 3 4, Position_ctor 3 3, Position_ctor 3 2,
      Position_ctor 3 1, Position_ctor 3 0, Position_ctor 0 1, Position_ctor 2 0,
      Position_ctor 1 4, Position_ctor 1 3, Position_ctor 1 2, Position_ctor 1 1,
      Position_ctor 1 0, Position_ctor 0 4, Position_ctor 0 3, Position_ctor 0 2]"
  by code_simp

lemma sorted_outputs_5_some:
  "libstdcxx_sort compareProbability outputs_5 \<noteq> None"
  by code_simp

lemma best_of_outputs_5:
  "(case libstdcxx_sort_outputs outputs_5 of
      [] \<Rightarrow> False | best # rest \<Rightarrow> m_row best = 2 \<and> m_col best = 4)"
  by code_simp

lemma board_5_free_2_4: "colour_at board_5 (Position_ctor 2 4) = WHITE"
proof -
  have "colours_5 (Position_ctor 2 4) = WHITE" by code_simp
  moreover have "inb board_5 (Position_ctor 2 4)"
    by (simp add: inb_def wf_board_5(2) Position_ctor_sel)
  ultimately show ?thesis using colour_at_board_5 by simp
qed

lemma computerPlay_board_5:
  "computerPlay libstdcxx_sort_outputs rand_5 board_5
     = Inr (colour_node board_5 RED (Position_ctor 2 4))"
proof -
  from best_of_outputs_5 obtain best rest where
    b: "libstdcxx_sort_outputs outputs_5 = best # rest" "m_row best = 2" "m_col best = 4"
    by (auto split: list.splits)
  have ap: "addPlay board_5 SECOND 2 4 = Inr (True, colour_node board_5 RED (Position_ctor 2 4))"
    using addPlay_free[OF wf_board_5(1) _ _ board_5_free_2_4, of SECOND]
    by (simp add: wf_board_5(2) convertPlayer_def)
  show ?thesis
    unfolding computerPlay_collect[OF wf_board_5(1)] collect_board_5
    by (simp add: b ap)
qed

lemma board_5_not_earliest:
  "isNodeColour (colour_node board_5 RED (Position_ctor 2 4)) RED 0 1 = Inr False"
proof -
  let ?g = "colour_node board_5 RED (Position_ctor 2 4)"
  have i1: "inb board_5 (Position_ctor 2 4)" and i2: "inb board_5 (Position_ctor 0 1)"
    by (simp_all add: inb_def wf_board_5(2) Position_ctor_sel)
  have w: "wf_game ?g" by (rule colour_node_wf[OF wf_board_5(1) i1])
  have "colours_5 (Position_ctor 0 1) = WHITE" by code_simp
  then have "colour_at board_5 (Position_ctor 0 1) = WHITE" using colour_at_board_5 i2 by simp
  moreover have "Position_ctor 0 1 \<noteq> Position_ctor 2 4" by (simp add: Position_ctor_def)
  ultimately have c: "colour_at ?g (Position_ctor 0 1) = WHITE"
    using colour_node_colour_at[OF wf_board_5(1) i1 i2, of RED] by simp
  have "inb ?g (Position_ctor 0 1)" using i2 by (simp add: colour_node_inb)
  from wf_node_at(1)[OF w this] c show ?thesis
    by (simp add: isNodeColour_def colour_at_def Position_ctor_sel)
qed

subsection \<open>The claims\<close>

text \<open>
  C6, as the code has it.  On a well-formed game whose counters are right and which
  has a free node, for every sorting function meeting the contract of \<^verbatim>\<open>std::sort\<close> (a
  permutation of its input, no element before one that compares greater): there are
  random values with which \<^verbatim>\<open>computerPlay\<close> returns, and whenever it returns, the outputs
  are one probability for each free node, in row-major order, and the node it has
  coloured red is the node of an output whose probability is maximal among them.
  Nothing is said about which of several maximal outputs it is.
\<close>

theorem computerPlay_takes_a_maximal_candidate:
  assumes "wf_game g" "counted g" "sort_contract std_sort"
    "\<exists>row col. row < m_size g \<and> col < m_size g \<and> isNodeFree g row col = Inr True"
  shows "(\<exists>rnd g'. computerPlay std_sort rnd g = Inr g') \<and>
     (\<forall>rnd g'. computerPlay std_sort rnd g = Inr g' \<longrightarrow>
        (\<exists>outputs rnd' best.
           computerPlay_rows rnd g (m_tree g) (m_play_total g) 0 [] = Inr (g, outputs, rnd') \<and>
           map position_of outputs = free_cells g \<and>
           best \<in> set outputs \<and> (\<forall>q\<in>set outputs. m_value q \<le> m_value best) \<and>
           g' = colour_node g RED (position_of best)))"
proof
  from assms(4) obtain row col where f: "row < m_size g" "col < m_size g"
    "isNodeFree g row col = Inr True" by blast
  then have "Position_ctor row col \<in> set (free_cells g)"
    unfolding set_free_cells using isNodeFree_wf[OF assms(1) f(1,2)]
    by (simp add: inb_def Position_ctor_sel)
  then have "free_cells g \<noteq> []" by auto
  from computerPlay_exists[OF assms(1-3) this]
  show "\<exists>rnd g'. computerPlay std_sort rnd g = Inr g'" .
next
  show "\<forall>rnd g'. computerPlay std_sort rnd g = Inr g' \<longrightarrow>
        (\<exists>outputs rnd' best.
           computerPlay_rows rnd g (m_tree g) (m_play_total g) 0 [] = Inr (g, outputs, rnd') \<and>
           map position_of outputs = free_cells g \<and>
           best \<in> set outputs \<and> (\<forall>q\<in>set outputs. m_value q \<le> m_value best) \<and>
           g' = colour_node g RED (position_of best))"
  proof (intro allI impI)
    fix rnd g' assume c: "computerPlay std_sort rnd g = Inr g'"
    from computerPlay_selects[OF assms(1,3) c] obtain outputs rnd' best rest where
      s: "computerPlay_rows rnd g (m_tree g) (m_play_total g) 0 [] = Inr (g, outputs, rnd')"
        "map position_of outputs = free_cells g"
        "best \<in> set outputs" "\<forall>q\<in>set outputs. m_value q \<le> m_value best"
        "g' = colour_node g RED (position_of best)"
      by blast
    then show "\<exists>outputs rnd' best.
           computerPlay_rows rnd g (m_tree g) (m_play_total g) 0 [] = Inr (g, outputs, rnd') \<and>
           map position_of outputs = free_cells g \<and>
           best \<in> set outputs \<and> (\<forall>q\<in>set outputs. m_value q \<le> m_value best) \<and>
           g' = colour_node g RED (position_of best)" by blast
  qed
qed

theorem computerPlay_takes_a_maximal_candidate_witness:
  "wf_game board_mid \<and> counted board_mid \<and> sort_contract insertion_sort \<and>
   isNodeFree board_mid 2 0 = Inr True \<and>
   computerPlay_rows rand_mid board_mid (m_tree board_mid) (m_play_total board_mid) 0 []
     = Inr (board_mid, [Probability_ctor 0 1 0, Probability_ctor (150 / 151) 2 0,
                        Probability_ctor 0 2 1, Probability_ctor 0 2 2], []) \<and>
   computerPlay insertion_sort rand_mid board_mid
     = Inr (colour_node board_mid RED (Position_ctor 2 0)) \<and>
   (\<exists>outputs rnd' best.
      computerPlay_rows rand_mid board_mid (m_tree board_mid) (m_play_total board_mid) 0 []
        = Inr (board_mid, outputs, rnd') \<and>
      map position_of outputs = free_cells board_mid \<and>
      best \<in> set outputs \<and> (\<forall>q\<in>set outputs. m_value q \<le> m_value best) \<and>
      colour_node board_mid RED (Position_ctor 2 0)
        = colour_node board_mid RED (position_of best))"
proof -
  have f: "isNodeFree board_mid 2 0 = Inr True"
    using isNodeFree_wf[OF wf_board_mid(1), of 2 0] board_mid_free_2_0
    by (simp add: wf_board_mid(2))
  then have e: "\<exists>row col. row < m_size board_mid \<and> col < m_size board_mid \<and>
      isNodeFree board_mid row col = Inr True"
    using wf_board_mid(2) by (intro exI[of _ 2] exI[of _ 0]) simp
  from computerPlay_takes_a_maximal_candidate[OF wf_board_mid(1,3) insertion_sort_contract e]
    computerPlay_board_mid
  have "\<exists>outputs rnd' best.
      computerPlay_rows rand_mid board_mid (m_tree board_mid) (m_play_total board_mid) 0 []
        = Inr (board_mid, outputs, rnd') \<and>
      map position_of outputs = free_cells board_mid \<and>
      best \<in> set outputs \<and> (\<forall>q\<in>set outputs. m_value q \<le> m_value best) \<and>
      colour_node board_mid RED (Position_ctor 2 0)
        = colour_node board_mid RED (position_of best)" by blast
  then show ?thesis
    using wf_board_mid(1,3) insertion_sort_contract f rows_board_mid[unfolded outputs_mid_def]
      computerPlay_board_mid by blast
qed

text \<open>
  The claim C6 as it is stated fails.  On \<open>board_5\<close> with the random values \<open>rand_5\<close> the
  outputs of \<^verbatim>\<open>computerPlay\<close> are the twenty free cells in row-major order, (0,1) first,
  each with the probability 0: all of them share the maximal estimate.  \<^verbatim>\<open>std::sort\<close> as
  libstdc++ implements it puts the output of (2,4) in front, and \<^verbatim>\<open>computerPlay\<close> colours
  (2,4); the earliest of the tied candidates, (0,1), stays free.
\<close>

theorem computerPlay_tie_not_earliest:
  "reachable board_5 \<and>
   computerPlay_rows rand_5 board_5 (m_tree board_5) (m_play_total board_5) 0 []
     = Inr (board_5, outputs_5, []) \<and>
   map position_of outputs_5 = free_cells board_5 \<and>
   map m_value outputs_5 = replicate 20 0 \<and>
   hd (free_cells board_5) = Position_ctor 0 1 \<and>
   libstdcxx_sort compareProbability outputs_5 \<noteq> None \<and>
   map position_of (libstdcxx_sort_outputs outputs_5) =
     [Position_ctor 2 4, Position_ctor 4 3, Position_ctor 4 2, Position_ctor 4 1,
      Position_ctor 4 0, Position_ctor 3 4, Position_ctor 3 3, Position_ctor 3 2,
      Position_ctor 3 1, Position_ctor 3 0, Position_ctor 0 1, Position_ctor 2 0,
      Position_ctor 1 4, Position_ctor 1 3, Position_ctor 1 2, Position_ctor 1 1,
      Position_ctor 1 0, Position_ctor 0 4, Position_ctor 0 3, Position_ctor 0 2] \<and>
   computerPlay libstdcxx_sort_outputs rand_5 board_5
     = Inr (colour_node board_5 RED (Position_ctor 2 4)) \<and>
   isNodeColour (colour_node board_5 RED (Position_ctor 2 4)) RED 0 1 = Inr False"
proof -
  have a: "map position_of outputs_5 = free_cells board_5"
    unfolding free_cells_board_5
    by (simp add: outputs_5_def candidates_5_def position_of_def Probability_ctor_sel)
  have b: "map m_value outputs_5 = replicate 20 0"
    by (simp add: outputs_5_def Probability_ctor_sel eval_nat_numeral)
  have c: "hd (free_cells board_5) = Position_ctor 0 1"
    unfolding free_cells_board_5 by (simp add: candidates_5_def)
  show ?thesis
    using reachable_board_5 rows_board_5 a b c sorted_outputs_5_some sorted_outputs_5
      computerPlay_board_5 board_5_not_earliest
    by simp
qed

end
